theory Spec2Isabelle
  imports Complex_Main "HOL-Library.Log_Nat" "HOL-Library.Multiset"
begin

section \<open>The shared-counter experiment of \<^verbatim>\<open>shared_mutable_access.c\<close>\<close>

text \<open>
  The program increments one shared integer from several threads that a spin barrier
  releases together, repeats that many times for each thread count, and prints a table
  of statistics. The embedding below follows the C file function by function:

  \<^item> the file-scope variables are one record \<open>globals\<close>, passed through every function;
  \<^item> a thread is a program counter over the statements of \<open>worker\<close> and
    \<open>barrier\<close>; the threads of one trial run interleaved, one statement at a
    time, in the order a schedule dictates; every access to the \<open>atomic_int\<close>
    variables is one indivisible step, and the plain \<open>int\<close> increment is the three
    instructions (load, add, store) listed in the comment of \<open>worker\<close>;
  \<^item> \<open>pthread_join\<close> does not return before the thread has returned, so a function
    that joins is partial: it has a value only if the schedule lets every thread finish;
  \<^item> \<open>int\<close> is 32 bits wide, \<open>float\<close> and \<open>double\<close> are IEEE 754 binary32 and
    binary64 with round-to-nearest-even, and every floating-point operation rounds
    to the type of its result.
\<close>

subsection \<open>Machine integers\<close>

text \<open>
  Arithmetic on \<open>atomic_int\<close> wraps around silently in two's complement, and so does
  the addition of the machine on a plain \<open>int\<close> where C leaves the overflow undefined.
\<close>

definition wrap32 :: "int \<Rightarrow> int" where
  "wrap32 x = (x + 2147483648) mod 4294967296 - 2147483648"

definition INT_MAX :: int where
  "INT_MAX = 2147483647"

subsection \<open>Configuration and shared state\<close>

text \<open>
  The file-scope variables. \<open>USE_ATOMICS\<close> is the preprocessor switch that selects the
  type of \<open>shared_data\<close>: \<open>atomic_int\<close> when set, plain \<open>int\<close> otherwise.
\<close>

record globals =
  max_threads :: int
  total_experiments :: int
  do_complex_mode :: bool
  do_simple_mode :: bool
  USE_ATOMICS :: bool
  thread_count :: int
  shared_data :: int
  wait_lock :: int

text \<open>The values the file is shipped with.\<close>

definition initial_globals :: globals where
  "initial_globals = \<lparr> max_threads = 10, total_experiments = 100,
     do_complex_mode = True, do_simple_mode = True, USE_ATOMICS = False,
     thread_count = 8, shared_data = 0, wait_lock = 0 \<rparr>"

subsection \<open>Floating point\<close>

text \<open>
  A finite floating-point number is the real number it denotes. \<open>fl_round p emin x\<close> is
  the number with a \<open>p\<close>-bit significand and least exponent \<open>emin\<close> nearest to \<open>x\<close>,
  ties going to the even significand. \<open>expo x\<close> is the binary exponent of \<open>x\<close>, the
  integer \<open>e\<close> with \<open>2\<^sup>e \<le> \<bar>x\<bar> < 2\<^sup>e\<^sup>+\<^sup>1\<close>. No value print_stats computes from 32-bit
  integers reaches the overflow threshold of either format.
\<close>

definition rnd_even :: "real \<Rightarrow> int" where
  "rnd_even x = (let f = \<lfloor>x\<rfloor>; d = x - of_int f in
     if d < 1/2 then f else if 1/2 < d then f + 1 else if even f then f else f + 1)"

definition expo :: "real \<Rightarrow> int" where
  "expo x = (if 1 \<le> \<bar>x\<bar> then bitlen \<lfloor>\<bar>x\<bar>\<rfloor> - 1 else - bitlen (\<lceil>1 / \<bar>x\<bar>\<rceil> - 1))"

definition fl_round :: "nat \<Rightarrow> int \<Rightarrow> real \<Rightarrow> real" where
  "fl_round p emin x = (if x = 0 then 0 else
     let e = max (expo x) emin; u = 2 powi (e - int p + 1)
     in of_int (rnd_even (x / u)) * u)"

definition to_float :: "real \<Rightarrow> real" where
  "to_float = fl_round 24 (- 126)"

definition to_double :: "real \<Rightarrow> real" where
  "to_double = fl_round 53 (- 1022)"

text \<open>
  The integer square root, and with it the correctly rounded square root of a positive
  number: the significand is the integer nearest to \<open>sqrt (x / u\<^sup>2)\<close>, found by comparing
  \<open>x / u\<^sup>2\<close> with the square of the midpoint.
\<close>

definition isqrt_step :: "int \<Rightarrow> int \<Rightarrow> int" where
  "isqrt_step n s = (if (s + 1) * (s + 1) \<le> n then s + 1 else s)"

function isqrt :: "int \<Rightarrow> int" where
  "isqrt n = (if n < 1 then 0 else isqrt_step n (2 * isqrt (n div 4)))"
  by pat_completeness auto
termination
  by (relation "measure nat") auto

declare isqrt.simps [simp del]

definition sqrt_round :: "nat \<Rightarrow> real \<Rightarrow> real" where
  "sqrt_round p x = (if x \<le> 0 then 0 else
     let e = expo x div 2; u = 2 powi (e - int p + 1); y = x / (u * u);
         f = isqrt \<lfloor>y\<rfloor>; h = (of_int f + 1/2) * (of_int f + 1/2);
         m = (if y < h then f else if h < y then f + 1 else if even f then f else f + 1)
     in of_int m * u)"

text \<open>
  The arithmetic print_stats runs on: rounding to \<open>float\<close>, rounding to \<open>double\<close>, and the
  \<open>double\<close> square root of the mathematical library. \<open>ieee\<close> is the arithmetic of the
  machine; \<open>exact\<close> rounds nothing, and serves to say what the formulas compute before
  rounding.
\<close>

record fpu =
  rnd32 :: "real \<Rightarrow> real"
  rnd64 :: "real \<Rightarrow> real"
  sqrt64 :: "real \<Rightarrow> real"

definition ieee :: fpu where
  "ieee = \<lparr> rnd32 = to_float, rnd64 = to_double, sqrt64 = sqrt_round 53 \<rparr>"

definition exact :: fpu where
  "exact = \<lparr> rnd32 = (\<lambda>x. x), rnd64 = (\<lambda>x. x), sqrt64 = sqrt \<rparr>"

text \<open>
  A \<open>float\<close> variable holds a finite number or, after \<open>0.0f / 0.0f\<close>, a NaN. print_stats
  divides only by the batch size, which is zero only when the sums it divides are zero
  too, so NaN is the one value outside the reals that it can produce.
\<close>

datatype cfloat = Finite real | NaN

fun float_add :: "fpu \<Rightarrow> cfloat \<Rightarrow> cfloat \<Rightarrow> cfloat" where
  "float_add fp (Finite a) (Finite b) = Finite (rnd32 fp (a + b))"
| "float_add fp _ _ = NaN"

fun float_sub :: "fpu \<Rightarrow> cfloat \<Rightarrow> cfloat \<Rightarrow> cfloat" where
  "float_sub fp (Finite a) (Finite b) = Finite (rnd32 fp (a - b))"
| "float_sub fp _ _ = NaN"

fun float_div :: "fpu \<Rightarrow> cfloat \<Rightarrow> cfloat \<Rightarrow> cfloat" where
  "float_div fp (Finite a) (Finite b) = (if b = 0 then NaN else Finite (rnd32 fp (a / b)))"
| "float_div fp _ _ = NaN"

text \<open>The conversion \<open>(float) i\<close> of an \<open>int\<close>.\<close>

definition int_to_float :: "fpu \<Rightarrow> int \<Rightarrow> cfloat" where
  "int_to_float fp i = Finite (rnd32 fp (of_int i))"

text \<open>\<open>pow(x, 2)\<close> on a \<open>float\<close> argument promoted to \<open>double\<close>.\<close>

fun pow_2 :: "fpu \<Rightarrow> cfloat \<Rightarrow> cfloat" where
  "pow_2 fp (Finite a) = Finite (rnd64 fp (a * a))"
| "pow_2 fp NaN = NaN"

text \<open>
  \<open>sum1 = sum1 + d\<close> with \<open>sum1\<close> a \<open>float\<close> and \<open>d\<close> a \<open>double\<close>: the addition is
  a \<open>double\<close> addition, and the assignment rounds its result to \<open>float\<close>.
\<close>

fun float_add_double :: "fpu \<Rightarrow> cfloat \<Rightarrow> cfloat \<Rightarrow> cfloat" where
  "float_add_double fp (Finite a) (Finite d) = Finite (rnd32 fp (rnd64 fp (a + d)))"
| "float_add_double fp _ _ = NaN"

text \<open>\<open>std_deviation = sqrt(variance)\<close>: a \<open>double\<close> square root assigned to a \<open>float\<close>.\<close>

fun float_sqrt :: "fpu \<Rightarrow> cfloat \<Rightarrow> cfloat" where
  "float_sqrt fp (Finite a) = (if a < 0 then NaN else Finite (rnd32 fp (sqrt64 fp a)))"
| "float_sqrt fp NaN = NaN"

text \<open>
  The conversion \<open>%.2f\<close> of \<open>printf\<close> prints the decimal with two places nearest to the
  exact value of its argument; \<open>printf_2f\<close> is that decimal in hundredths.
\<close>

fun printf_2f :: "cfloat \<Rightarrow> int option" where
  "printf_2f (Finite a) = Some (rnd_even (a * 100))"
| "printf_2f NaN = None"

subsection \<open>print_stats\<close>

text \<open>
  One line of the table: the arguments print_stats hands to \<open>printf\<close>, in the order of
  the columns.
\<close>

record stats_row =
  col_thread_count :: int
  col_experiments :: int
  col_failures :: int
  col_min :: int
  col_average :: cfloat
  col_max :: int
  col_variance :: cfloat
  col_std_dev :: cfloat

text \<open>
  The first loop of print_stats: the running \<open>sum\<close>, \<open>max\<close> and \<open>min\<close> over
  \<open>results[0..experiment_count-1]\<close>.
\<close>

fun first_pass :: "fpu \<Rightarrow> int list \<Rightarrow> cfloat \<times> int \<times> int \<Rightarrow> cfloat \<times> int \<times> int" where
  "first_pass fp [] acc = acc"
| "first_pass fp (r # rs) (sum0, mx, mn) =
     first_pass fp rs
       (float_add fp sum0 (int_to_float fp r),
        (if r > mx then r else mx),
        (if r < mn then r else mn))"

text \<open>The second loop: \<open>sum1 = sum1 + pow((results[i] - average), 2)\<close>.\<close>

fun second_pass :: "fpu \<Rightarrow> cfloat \<Rightarrow> int list \<Rightarrow> cfloat \<Rightarrow> cfloat" where
  "second_pass fp average [] sum1 = sum1"
| "second_pass fp average (r # rs) sum1 =
     second_pass fp average rs
       (float_add_double fp sum1 (pow_2 fp (float_sub fp (int_to_float fp r) average)))"

text \<open>
  The array \<open>results\<close> and its length \<open>experiment_count\<close> are one list. The trial
  count and the failure count of the row come from the global \<open>total_experiments\<close>, not
  from \<open>experiment_count\<close>. \<open>int min = max_threads + 1\<close> is an \<open>int\<close> addition: below
  \<open>INT_MAX\<close> it is \<open>max_threads + 1\<close>; at \<open>INT_MAX\<close> it overflows, which C leaves
  undefined, and the addition of the machine wraps around to \<open>-2147483648\<close>, the value
  the scan then starts from and reports. The properties below that depend on the start
  of the minimum scan are stated for \<open>max_threads < INT_MAX\<close>.
\<close>

definition print_stats_with ::
  "fpu \<Rightarrow> globals \<Rightarrow> int \<Rightarrow> int \<Rightarrow> int list \<Rightarrow> stats_row" where
  "print_stats_with fp g thread_count' successes results =
     (let experiment_count = int (length results);
          min0 = (if max_threads g < INT_MAX then max_threads g + 1
                  else wrap32 (max_threads g + 1));
          (sum0, mx, mn) = first_pass fp results (Finite 0, 0, min0);
          average = float_div fp sum0 (int_to_float fp experiment_count);
          sum1 = second_pass fp average results (Finite 0);
          variance = float_div fp sum1 (int_to_float fp experiment_count);
          std_deviation = float_sqrt fp variance
      in \<lparr> col_thread_count = thread_count',
           col_experiments = total_experiments g,
           col_failures = total_experiments g - successes,
           col_min = mn,
           col_average = average,
           col_max = mx,
           col_variance = variance,
           col_std_dev = std_deviation \<rparr>)"

definition print_stats :: "globals \<Rightarrow> int \<Rightarrow> int \<Rightarrow> int list \<Rightarrow> stats_row" where
  "print_stats = print_stats_with ieee"

subsection \<open>barrier and worker\<close>

text \<open>
  Where a thread stands in \<open>worker\<close>:
  \<^item> \<open>Arrive\<close>: in \<open>barrier\<close>, before \<open>wait_lock += 1\<close>;
  \<^item> \<open>Spin\<close>: in \<open>barrier\<close>, in \<open>while (wait_lock != thread_count) {}\<close>;
  \<^item> \<open>Incr\<close>: returned from \<open>barrier\<close>, before \<open>shared_data += 1\<close>;
  \<^item> \<open>Loaded eax\<close>: after \<open>mov eax, shared_data\<close>, before \<open>add eax, 1\<close>;
  \<^item> \<open>Added eax\<close>: after the addition, before \<open>mov shared_data, eax\<close>;
  \<^item> \<open>Done\<close>: returned from \<open>worker\<close>.
\<close>

datatype pc = Arrive | Spin | Incr | Loaded int | Added int | Done

text \<open>
  The next statement of a thread inside \<open>barrier\<close>: the increment of the
  \<open>atomic_int\<close> counter, then one test of the loop condition, which leaves the loop
  (and \<open>barrier\<close>) when \<open>wait_lock\<close> equals the global \<open>thread_count\<close>.
\<close>

fun barrier :: "globals \<Rightarrow> pc \<Rightarrow> globals \<times> pc" where
  "barrier g Arrive = (g\<lparr>wait_lock := wrap32 (wait_lock g + 1)\<rparr>, Spin)"
| "barrier g Spin = (g, if wait_lock g \<noteq> thread_count g then Spin else Incr)"
| "barrier g p = (g, p)"

text \<open>
  The next statement of a thread in \<open>worker\<close>: \<open>barrier()\<close>, then
  \<open>shared_data += 1\<close>. On an \<open>atomic_int\<close> the increment is a single
  read-modify-write; on a plain \<open>int\<close> it is the three instructions, and other threads
  can run between them.
\<close>

fun worker :: "globals \<Rightarrow> pc \<Rightarrow> globals \<times> pc" where
  "worker g Arrive = barrier g Arrive"
| "worker g Spin = barrier g Spin"
| "worker g Incr =
     (if USE_ATOMICS g then (g\<lparr>shared_data := wrap32 (shared_data g + 1)\<rparr>, Done)
      else (g, Loaded (shared_data g)))"
| "worker g (Loaded eax) = (g, Added (wrap32 (eax + 1)))"
| "worker g (Added eax) = (g\<lparr>shared_data := eax\<rparr>, Done)"
| "worker g Done = (g, Done)"

text \<open>A thread has left the barrier once it is past the loop.\<close>

fun past_barrier :: "pc \<Rightarrow> bool" where
  "past_barrier Arrive = False"
| "past_barrier Spin = False"
| "past_barrier _ = True"

subsection \<open>Threads of a trial\<close>

text \<open>
  The machine during a trial: the globals and the program counter of every thread
  created. A schedule names the thread that runs at each step; a name that is no thread
  leaves the machine as it is. \<open>exec sched k m\<close> is the machine after \<open>k\<close> steps.
\<close>

type_synonym machine = "globals \<times> pc list"

definition thread_step :: "nat \<Rightarrow> machine \<Rightarrow> machine" where
  "thread_step t m =
     (case m of (g, pcs) \<Rightarrow>
        if t < length pcs
        then (case worker g (pcs ! t) of (g', p') \<Rightarrow> (g', pcs[t := p']))
        else m)"

primrec exec :: "(nat \<Rightarrow> nat) \<Rightarrow> nat \<Rightarrow> machine \<Rightarrow> machine" where
  "exec sched 0 m = m"
| "exec sched (Suc k) m = thread_step (sched k) (exec sched k m)"

definition all_done :: "machine \<Rightarrow> bool" where
  "all_done m = list_all (\<lambda>p. p = Done) (snd m)"

text \<open>
  A schedule is fair to \<open>n\<close> threads when each of them runs again after every step:
  what threads scheduled concurrently by the operating system are granted.
\<close>

definition fair :: "nat \<Rightarrow> (nat \<Rightarrow> nat) \<Rightarrow> bool" where
  "fair n sched = (\<forall>t<n. \<forall>i. \<exists>j\<ge>i. sched j = t)"

text \<open>
  The two loops of \<open>create_threads_and_launch_worker\<close>: \<open>pthread_create\<close> for each
  of the \<open>thread_count\<close> threads (its parameter, which hides the global), then
  \<open>pthread_join\<close> for each. The function returns when every thread has returned, and
  never if one of them never does. The array \<open>threads[thread_count]\<close> has no meaning in
  C for a \<open>thread_count\<close> below 1; here such a call creates no thread, and the
  properties below are stated for \<open>thread_count \<ge> 1\<close>.
\<close>

partial_function (option) join_all :: "(nat \<Rightarrow> nat) \<Rightarrow> nat \<Rightarrow> machine \<Rightarrow> globals option" where
  "join_all sched k m =
     (if all_done m then Some (fst m) else join_all sched (Suc k) (thread_step (sched k) m))"

declare join_all.simps [code]

definition create_threads_and_launch_worker ::
  "(nat \<Rightarrow> nat) \<Rightarrow> int \<Rightarrow> globals \<Rightarrow> globals option" where
  "create_threads_and_launch_worker sched thread_count' g =
     join_all sched 0 (g, replicate (nat thread_count') Arrive)"

subsection \<open>simple_mode, complex_mode and main\<close>

text \<open>
  \<open>simple_mode\<close> runs one trial at the global \<open>thread_count\<close>, prints the pair
  \<open>(thread_count, shared_data)\<close> and resets the shared state.
\<close>

definition simple_mode :: "(nat \<Rightarrow> nat) \<Rightarrow> globals \<Rightarrow> (globals \<times> int \<times> int) option" where
  "simple_mode sched g =
     (case create_threads_and_launch_worker sched (thread_count g) g of
        None \<Rightarrow> None
      | Some g1 \<Rightarrow>
          Some (g1\<lparr>wait_lock := 0, shared_data := 0\<rparr>, thread_count g1, shared_data g1))"

text \<open>
  The inner loop of \<open>complex_mode\<close>, from \<open>experiment\<close> on: a trial, the success
  test, the store into \<open>results[experiment]\<close> (the array grows by one entry each
  round), the reset. \<open>scheds experiment\<close> is the schedule of that trial. The array
  \<open>results[total_experiments]\<close> has no meaning in C for a \<open>total_experiments\<close> below 1;
  here the loop then records nothing.
\<close>

partial_function (option) experiments ::
  "(nat \<Rightarrow> nat \<Rightarrow> nat) \<Rightarrow> nat \<Rightarrow> globals \<Rightarrow> int \<Rightarrow> int list \<Rightarrow> (globals \<times> int \<times> int list) option"
  where
  "experiments scheds experiment g successes results =
     (if int experiment < total_experiments g then
        (case create_threads_and_launch_worker (scheds experiment) (thread_count g) g of
           None \<Rightarrow> None
         | Some g1 \<Rightarrow>
             experiments scheds (Suc experiment) (g1\<lparr>wait_lock := 0, shared_data := 0\<rparr>)
               (if shared_data g1 = thread_count g1 then successes + 1 else successes)
               (results @ [shared_data g1]))
      else Some (g, successes, results))"

declare experiments.simps [code]

text \<open>
  The outer loop of \<open>complex_mode\<close>, from the current value of the global
  \<open>thread_count\<close> on; \<open>thread_count++\<close> is an increment of an \<open>atomic_int\<close>. Each
  round appends the row print_stats prints.
\<close>

partial_function (option) sweep ::
  "(int \<Rightarrow> nat \<Rightarrow> nat \<Rightarrow> nat) \<Rightarrow> globals \<Rightarrow> stats_row list \<Rightarrow> (globals \<times> stats_row list) option"
  where
  "sweep scheds g rows =
     (if thread_count g \<le> max_threads g then
        (case experiments (scheds (thread_count g)) 0 g 0 [] of
           None \<Rightarrow> None
         | Some (g1, successes, results) \<Rightarrow>
             sweep scheds (g1\<lparr>thread_count := wrap32 (thread_count g1 + 1)\<rparr>)
               (rows @ [print_stats g1 (thread_count g1) successes results]))
      else Some (g, rows))"

declare sweep.simps [code]

definition complex_mode ::
  "(int \<Rightarrow> nat \<Rightarrow> nat \<Rightarrow> nat) \<Rightarrow> globals \<Rightarrow> (globals \<times> stats_row list) option" where
  "complex_mode scheds g =
     (let original_thread_count = thread_count g in
      case sweep scheds (g\<lparr>thread_count := 1\<rparr>) [] of
        None \<Rightarrow> None
      | Some (g1, rows) \<Rightarrow> Some (g1\<lparr>thread_count := original_thread_count\<rparr>, rows))"

text \<open>The program: the table of \<open>complex_mode\<close>, then the line of \<open>simple_mode\<close>.\<close>

definition main ::
  "(int \<Rightarrow> nat \<Rightarrow> nat \<Rightarrow> nat) \<Rightarrow> (nat \<Rightarrow> nat) \<Rightarrow> globals \<Rightarrow>
     (globals \<times> stats_row list \<times> (int \<times> int) option) option" where
  "main scheds sched g =
     (case (if do_complex_mode g then complex_mode scheds g else Some (g, [])) of
        None \<Rightarrow> None
      | Some (g1, rows) \<Rightarrow>
          if do_simple_mode g1 then
            (case simple_mode sched g1 of
               None \<Rightarrow> None
             | Some (g2, line) \<Rightarrow> Some (g2, rows, Some line))
          else Some (g1, rows, None))"

subsection \<open>The summary of a batch\<close>

text \<open>
  \<open>tally\<close> is the success count the inner loop of \<open>complex_mode\<close> keeps while it
  records a batch: \<open>if (shared_data == thread_count) { successes += 1; }\<close>.
  \<open>summarize\<close> is the row \<open>complex_mode\<close> prints for a batch recorded at a thread
  count, the thread count being the expected outcome.
\<close>

fun tally :: "int \<Rightarrow> int list \<Rightarrow> int \<Rightarrow> int" where
  "tally tc [] successes = successes"
| "tally tc (r # rs) successes = tally tc rs (if r = tc then successes + 1 else successes)"

definition summarize :: "globals \<Rightarrow> int \<Rightarrow> int list \<Rightarrow> stats_row" where
  "summarize g tc batch = print_stats g tc (tally tc batch 0) batch"

text \<open>
  The statistics as the specification words them, over the reals: the arithmetic mean,
  the mean of the squared deviations from it, and the square root of that.
\<close>

definition spec_mean :: "int list \<Rightarrow> real" where
  "spec_mean xs = (\<Sum>x\<leftarrow>xs. real_of_int x) / real (length xs)"

definition spec_variance :: "int list \<Rightarrow> real" where
  "spec_variance xs = (\<Sum>x\<leftarrow>xs. (real_of_int x - spec_mean xs)\<^sup>2) / real (length xs)"

definition spec_std_dev :: "int list \<Rightarrow> real" where
  "spec_std_dev xs = sqrt (spec_variance xs)"

subsection \<open>The loops of print_stats on finite numbers\<close>

text \<open>
  While no NaN arises the two loops of print_stats compute on real numbers:
  \<open>sum_loop\<close> is the running \<open>sum\<close> of the first loop, \<open>sum1_loop\<close> the running
  \<open>sum1\<close> of the second, \<open>float_mean\<close> and \<open>float_variance\<close> the values of
  \<open>average\<close> and \<open>variance\<close>.
\<close>

fun sum_loop :: "fpu \<Rightarrow> int list \<Rightarrow> real \<Rightarrow> real" where
  "sum_loop fp [] s = s"
| "sum_loop fp (r # rs) s = sum_loop fp rs (rnd32 fp (s + rnd32 fp (of_int r)))"

fun sum1_loop :: "fpu \<Rightarrow> real \<Rightarrow> int list \<Rightarrow> real \<Rightarrow> real" where
  "sum1_loop fp a [] s1 = s1"
| "sum1_loop fp a (r # rs) s1 =
     sum1_loop fp a rs
       (rnd32 fp (rnd64 fp (s1 + rnd64 fp (rnd32 fp (rnd32 fp (of_int r) - a)
                                          * rnd32 fp (rnd32 fp (of_int r) - a)))))"

definition float_mean :: "fpu \<Rightarrow> int list \<Rightarrow> real" where
  "float_mean fp xs = rnd32 fp (sum_loop fp xs 0 / rnd32 fp (real (length xs)))"

definition float_variance :: "fpu \<Rightarrow> int list \<Rightarrow> real" where
  "float_variance fp xs =
     rnd32 fp (sum1_loop fp (float_mean fp xs) xs 0 / rnd32 fp (real (length xs)))"

subsection \<open>Invariants of a trial\<close>

text \<open>
  The counts the invariants speak of: the threads that have incremented \<open>wait_lock\<close>,
  and the threads that have returned.
\<close>

definition arrived :: "pc list \<Rightarrow> nat" where
  "arrived pcs = length (filter (\<lambda>p. p \<noteq> Arrive) pcs)"

definition finished :: "pc list \<Rightarrow> nat" where
  "finished pcs = length (filter (\<lambda>p. p = Done) pcs)"

text \<open>
  The barrier: the global \<open>thread_count\<close> is the number of threads created,
  \<open>wait_lock\<close> counts the threads that have arrived, and once a thread is past the
  loop \<open>wait_lock\<close> has reached \<open>thread_count\<close>.
\<close>

definition barrier_inv :: "machine \<Rightarrow> bool" where
  "barrier_inv m =
     (thread_count (fst m) = int (length (snd m)) \<and> int (length (snd m)) \<le> INT_MAX
      \<and> wait_lock (fst m) = int (arrived (snd m))
      \<and> ((\<exists>p\<in>set (snd m). past_barrier p) \<longrightarrow> wait_lock (fst m) = thread_count (fst m)))"

text \<open>
  The counter: with \<open>k\<close> threads returned, \<open>shared_data\<close> lies between 0 and \<open>k\<close>
  (and is at least 1 once a thread has returned), a register loaded from it lies in the
  same range, and a register after the addition lies between 1 and \<open>k + 1\<close>.
\<close>

fun reg_ok :: "nat \<Rightarrow> pc \<Rightarrow> bool" where
  "reg_ok k (Loaded eax) = (0 \<le> eax \<and> eax \<le> int k)"
| "reg_ok k (Added eax) = (1 \<le> eax \<and> eax \<le> int k + 1)"
| "reg_ok k _ = True"

definition counter_inv :: "machine \<Rightarrow> bool" where
  "counter_inv m =
     (int (length (snd m)) \<le> INT_MAX
      \<and> 0 \<le> shared_data (fst m) \<and> shared_data (fst m) \<le> int (finished (snd m))
      \<and> (0 < finished (snd m) \<longrightarrow> 1 \<le> shared_data (fst m))
      \<and> (\<forall>p\<in>set (snd m). reg_ok (finished (snd m)) p))"

text \<open>
  The atomic counter: no thread is ever between the load and the store, and
  \<open>shared_data\<close> counts the threads that have returned.
\<close>

fun no_reg :: "pc \<Rightarrow> bool" where
  "no_reg (Loaded eax) = False"
| "no_reg (Added eax) = False"
| "no_reg _ = True"

definition atomic_inv :: "machine \<Rightarrow> bool" where
  "atomic_inv m =
     (USE_ATOMICS (fst m) \<and> int (length (snd m)) \<le> INT_MAX
      \<and> shared_data (fst m) = int (finished (snd m))
      \<and> (\<forall>p\<in>set (snd m). no_reg p))"

text \<open>What no thread writes: the configuration and the global \<open>thread_count\<close>.\<close>

definition same_config :: "globals \<Rightarrow> globals \<Rightarrow> bool" where
  "same_config g g' =
     (max_threads g' = max_threads g \<and> total_experiments g' = total_experiments g
      \<and> do_complex_mode g' = do_complex_mode g \<and> do_simple_mode g' = do_simple_mode g
      \<and> USE_ATOMICS g' = USE_ATOMICS g \<and> thread_count g' = thread_count g)"

text \<open>
  The measure of progress of a trial: the number of statements its threads have run,
  the atomic increment counting for three.
\<close>

fun rank :: "pc \<Rightarrow> nat" where
  "rank Arrive = 0"
| "rank Spin = 1"
| "rank Incr = 2"
| "rank (Loaded eax) = 3"
| "rank (Added eax) = 4"
| "rank Done = 5"

definition progress :: "machine \<Rightarrow> nat" where
  "progress m = sum_list (map rank (snd m))"

section \<open>Properties\<close>

subsection \<open>The integer columns of a row\<close>

lemma first_pass_max:
  "fst (snd (first_pass fp xs (s, mx, mn))) = Max (insert mx (set xs))"
proof (induction xs arbitrary: s mx mn)
  case Nil
  then show ?case by simp
next
  case (Cons r rs)
  have "Max (insert (if mx < r then r else mx) (set rs)) = Max (insert mx (insert r (set rs)))"
    by (cases "set rs = {}") (auto simp: max_def)
  then show ?case using Cons by simp
qed

lemma first_pass_min:
  "snd (snd (first_pass fp xs (s, mx, mn))) = Min (insert mn (set xs))"
proof (induction xs arbitrary: s mx mn)
  case Nil
  then show ?case by simp
next
  case (Cons r rs)
  have "Min (insert (if r < mn then r else mn) (set rs)) = Min (insert mn (insert r (set rs)))"
    by (cases "set rs = {}") (auto simp: min_def)
  then show ?case using Cons by simp
qed

lemma col_min_print_stats:
  "col_min (print_stats_with fp g tc successes results)
     = Min (insert (if max_threads g < INT_MAX then max_threads g + 1
                    else wrap32 (max_threads g + 1)) (set results))"
  using first_pass_min[of fp results "Finite 0" 0
          "if max_threads g < INT_MAX then max_threads g + 1 else wrap32 (max_threads g + 1)"]
  by (auto simp: print_stats_with_def Let_def split: prod.splits split del: if_split)

text \<open>
  At \<open>max_threads = INT_MAX\<close> the scan starts from \<open>-2147483648\<close>, which is then the
  minimum reported for every batch.
\<close>

lemma col_min_overflow:
  "max_threads g = INT_MAX \<Longrightarrow>
     col_min (print_stats_with fp g tc successes results)
       = Min (insert (- 2147483648) (set results))"
  by (simp add: col_min_print_stats wrap32_def INT_MAX_def)

lemma col_max_print_stats:
  "col_max (print_stats_with fp g tc successes results) = Max (insert 0 (set results))"
  using first_pass_max[of fp results "Finite 0" 0
          "if max_threads g < INT_MAX then max_threads g + 1 else wrap32 (max_threads g + 1)"]
  by (auto simp: print_stats_with_def Let_def split: prod.splits split del: if_split)

lemma col_failures_print_stats:
  "col_failures (print_stats_with fp g tc successes results) = total_experiments g - successes"
  by (simp add: print_stats_with_def Let_def split: prod.splits)

lemma col_experiments_print_stats:
  "col_experiments (print_stats_with fp g tc successes results) = total_experiments g"
  by (simp add: print_stats_with_def Let_def split: prod.splits)

lemma col_thread_count_print_stats:
  "col_thread_count (print_stats_with fp g tc successes results) = tc"
  by (simp add: print_stats_with_def Let_def split: prod.splits)

subsection \<open>The sentinels of the minimum and maximum scan\<close>

text \<open>
  C9, as the code has it. The scan of print_stats starts from \<open>min = max_threads + 1\<close>
  and \<open>max = 0\<close>. For a batch that is not empty, the reported minimum is the least
  outcome exactly when some outcome is at most \<open>max_threads + 1\<close>, the reported maximum
  is the greatest outcome exactly when some outcome is at least 0, and a batch whose
  outcomes all exceed \<open>max_threads\<close> is reported with the minimum \<open>max_threads + 1\<close>.
\<close>

theorem min_max_sentinels:
  assumes "results \<noteq> []" and "max_threads g < INT_MAX"
  shows "(col_min (print_stats g tc successes results) = Min (set results)
           \<longleftrightarrow> (\<exists>r\<in>set results. r \<le> max_threads g + 1))
       \<and> (col_max (print_stats g tc successes results) = Max (set results)
           \<longleftrightarrow> (\<exists>r\<in>set results. 0 \<le> r))
       \<and> ((\<forall>r\<in>set results. max_threads g < r)
           \<longrightarrow> col_min (print_stats g tc successes results) = max_threads g + 1)"
proof -
  have ne: "set results \<noteq> {}" "finite (set results)" using assms(1) by auto
  have mn: "col_min (print_stats g tc successes results)
              = min (max_threads g + 1) (Min (set results))"
    using ne assms(2) by (simp add: print_stats_def col_min_print_stats)
  have mx: "col_max (print_stats g tc successes results) = max 0 (Max (set results))"
    using ne by (simp add: print_stats_def col_max_print_stats)
  have 1: "(min (max_threads g + 1) (Min (set results)) = Min (set results))
       \<longleftrightarrow> (\<exists>r\<in>set results. r \<le> max_threads g + 1)"
  proof -
    have "(min (max_threads g + 1) (Min (set results)) = Min (set results))
       \<longleftrightarrow> Min (set results) \<le> max_threads g + 1"
      by (auto simp: min_def)
    then show ?thesis using ne by (simp add: Min_le_iff)
  qed
  have 2: "(max 0 (Max (set results)) = Max (set results)) \<longleftrightarrow> (\<exists>r\<in>set results. 0 \<le> r)"
  proof -
    have "(max 0 (Max (set results)) = Max (set results)) \<longleftrightarrow> 0 \<le> Max (set results)"
      by (auto simp: max_def)
    then show ?thesis using ne by (simp add: Max_ge_iff)
  qed
  have 3: "(\<forall>r\<in>set results. max_threads g < r)
       \<longrightarrow> min (max_threads g + 1) (Min (set results)) = max_threads g + 1"
  proof
    assume "\<forall>r\<in>set results. max_threads g < r"
    then have "\<forall>r\<in>set results. max_threads g + 1 \<le> r" by auto
    then have "max_threads g + 1 \<le> Min (set results)" using ne by simp
    then show "min (max_threads g + 1) (Min (set results)) = max_threads g + 1"
      by (simp add: min_def)
  qed
  show ?thesis using 1 2 3 by (simp only: mn mx)
qed

text \<open>
  The theorem at the shipped configuration (\<open>max_threads = 10\<close>): the batch \<open>[16, 3]\<close>
  is reported with its own minimum and maximum, the batch \<open>[12, 14]\<close> with the
  minimum 11.
\<close>

theorem min_max_sentinels_witness:
  "[16, 3] \<noteq> ([] :: int list) \<and> max_threads initial_globals < INT_MAX
   \<and> col_min (print_stats initial_globals 3 1 [16, 3]) = Min (set [16, 3])
   \<and> col_max (print_stats initial_globals 3 1 [16, 3]) = Max (set [16, 3])
   \<and> col_min (print_stats initial_globals 12 0 [12, 14]) = max_threads initial_globals + 1"
  using min_max_sentinels[of "[16, 3]" initial_globals 3 1]
        min_max_sentinels[of "[12, 14]" initial_globals 12 0]
  by (simp add: initial_globals_def INT_MAX_def)

text \<open>
  C9 as it is stated fails at the batch \<open>[11]\<close> under \<open>max_threads = 10\<close>: no outcome
  is at most \<open>max_threads\<close>, and yet the reported minimum, \<open>max_threads + 1 = 11\<close>, is
  the least outcome, an element of the batch.
\<close>

theorem min_sentinel_counterexample:
  "col_min (print_stats initial_globals 11 1 [11]) = Min (set [11])
   \<and> max_threads initial_globals < 11"
  by (simp add: print_stats_def col_min_print_stats initial_globals_def INT_MAX_def)

subsection \<open>The threads of a trial: invariants\<close>

lemma wrap32_id: "- 2147483648 \<le> x \<Longrightarrow> x \<le> INT_MAX \<Longrightarrow> wrap32 x = x"
  by (simp add: wrap32_def INT_MAX_def)

lemma count_update:
  "t < length xs \<Longrightarrow>
     int (length (filter P (xs[t := y])))
       = int (length (filter P xs)) - (if P (xs ! t) then 1 else 0) + (if P y then 1 else 0)"
proof (induction xs arbitrary: t)
  case Nil
  then show ?case by simp
next
  case (Cons x xs)
  show ?case
  proof (cases t)
    case 0
    then show ?thesis by simp
  next
    case (Suc n)
    with Cons.prems have "n < length xs" by simp
    from Cons.IH[OF this] show ?thesis using Suc by (auto split: if_splits)
  qed
qed

lemma arrived_update:
  "t < length pcs \<Longrightarrow>
     int (arrived (pcs[t := p]))
       = int (arrived pcs) - (if pcs ! t \<noteq> Arrive then 1 else 0) + (if p \<noteq> Arrive then 1 else 0)"
  unfolding arrived_def by (rule count_update)

lemma finished_update:
  "t < length pcs \<Longrightarrow>
     int (finished (pcs[t := p]))
       = int (finished pcs) - (if pcs ! t = Done then 1 else 0) + (if p = Done then 1 else 0)"
  unfolding finished_def by (rule count_update)

lemma arrived_le: "arrived pcs \<le> length pcs"
  by (simp add: arrived_def)

lemma finished_le: "finished pcs \<le> length pcs"
  by (simp add: finished_def)

lemma finished_less: "t < length pcs \<Longrightarrow> pcs ! t \<noteq> Done \<Longrightarrow> finished pcs < length pcs"
  using finished_update[of t pcs Done] finished_le[of "pcs[t := Done]"] by simp

lemma arrived_less: "t < length pcs \<Longrightarrow> pcs ! t = Arrive \<Longrightarrow> arrived pcs < length pcs"
  using arrived_update[of t pcs Spin] arrived_le[of "pcs[t := Spin]"] by simp

lemma arrived_all: "arrived pcs = length pcs \<longleftrightarrow> Arrive \<notin> set pcs"
  unfolding arrived_def by (induction pcs) (auto simp: le_imp_less_Suc[THEN less_imp_neq] dest: )

lemma set_updateD: "q \<in> set (xs[t := y]) \<Longrightarrow> q = y \<or> q \<in> set xs"
  using set_update_subset_insert[of xs t y] by auto

lemma thread_step_simps:
  "thread_step t (g, pcs) =
     (if t < length pcs then (fst (worker g (pcs ! t)), pcs[t := snd (worker g (pcs ! t))])
      else (g, pcs))"
  by (simp add: thread_step_def split: prod.splits)

lemma barrier_inv_step:
  assumes "barrier_inv m"
  shows "barrier_inv (thread_step t m)"
proof (cases m)
  case (Pair g pcs)
  show ?thesis
  proof (cases "t < length pcs")
    case False
    then show ?thesis using assms Pair by (simp add: thread_step_simps)
  next
    case True
    note inv = assms[unfolded Pair barrier_inv_def, simplified]
    show ?thesis
    proof (cases "pcs ! t")
      case Arrive
      have lt: "arrived pcs < length pcs" using arrived_less[OF True Arrive] .
      have nopast: "\<not> (\<exists>p\<in>set pcs. past_barrier p)"
        using inv lt by auto
      have w: "wrap32 (wait_lock g + 1) = wait_lock g + 1"
        using inv lt by (intro wrap32_id) (auto simp: INT_MAX_def)
      have "\<And>q. q \<in> set (pcs[t := Spin]) \<Longrightarrow> \<not> past_barrier q"
        using nopast by (auto dest!: set_updateD)
      then show ?thesis
        using inv True Arrive w arrived_update[OF True, of Spin]
        by (auto simp: Pair thread_step_simps barrier_inv_def)
    next
      case Spin
      show ?thesis
        using inv True Spin arrived_update[OF True, of Incr] arrived_update[OF True, of Spin]
        by (auto simp: Pair thread_step_simps barrier_inv_def dest!: set_updateD)
    next
      case Incr
      have past: "\<exists>p\<in>set pcs. past_barrier p"
        using True Incr nth_mem[OF True] by (intro bexI[of _ "pcs ! t"]) auto
      show ?thesis
        using inv True Incr past arrived_update[OF True, of Done] arrived_update[OF True, of "Loaded (shared_data g)"]
        by (auto simp: Pair thread_step_simps barrier_inv_def)
    next
      case (Loaded eax)
      have past: "\<exists>p\<in>set pcs. past_barrier p"
        using True Loaded nth_mem[OF True] by (intro bexI[of _ "pcs ! t"]) auto
      show ?thesis
        using inv True Loaded past arrived_update[OF True, of "Added (wrap32 (eax + 1))"]
        by (auto simp: Pair thread_step_simps barrier_inv_def)
    next
      case (Added eax)
      have past: "\<exists>p\<in>set pcs. past_barrier p"
        using True Added nth_mem[OF True] by (intro bexI[of _ "pcs ! t"]) auto
      show ?thesis
        using inv True Added past arrived_update[OF True, of Done]
        by (auto simp: Pair thread_step_simps barrier_inv_def)
    next
      case Done
      have "pcs[t := Done] = pcs" using True Done by (metis list_update_id)
      then show ?thesis using assms True Done by (simp add: Pair thread_step_simps)
    qed
  qed
qed

lemma reg_ok_mono: "reg_ok k p \<Longrightarrow> k \<le> k' \<Longrightarrow> reg_ok k' p"
  by (cases p) auto

lemma counter_inv_step:
  assumes "counter_inv m"
  shows "counter_inv (thread_step t m)"
proof (cases m)
  case (Pair g pcs)
  show ?thesis
  proof (cases "t < length pcs")
    case False
    then show ?thesis using assms Pair by (simp add: thread_step_simps)
  next
    case True
    note inv = assms[unfolded Pair counter_inv_def, simplified]
    have regs: "\<And>q. q \<in> set pcs \<Longrightarrow> reg_ok (finished pcs) q" using inv by simp
    have rt: "reg_ok (finished pcs) (pcs ! t)" using regs nth_mem[OF True] by simp
    show ?thesis
    proof (cases "pcs ! t = Done")
      case True
      have "pcs[t := Done] = pcs" using \<open>t < length pcs\<close> True by (metis list_update_id)
      then show ?thesis using assms \<open>t < length pcs\<close> True by (simp add: Pair thread_step_simps)
    next
      case notdone: False
      have lt: "finished pcs < length pcs" using finished_less[OF True notdone] .
      have same: "p \<noteq> Done \<Longrightarrow> finished (pcs[t := p]) = finished pcs" for p
        using finished_update[OF True, of p] notdone by simp
      have more: "finished (pcs[t := Done]) = finished pcs + 1"
        using finished_update[OF True, of Done] notdone by simp
      show ?thesis
      proof (cases "pcs ! t")
        case Arrive
        then show ?thesis
          using inv True same[of Spin] regs
          by (auto simp: Pair thread_step_simps counter_inv_def dest!: set_updateD)
      next
        case Spin
        then show ?thesis
          using inv True same[of Spin] same[of Incr] regs
          by (auto simp: Pair thread_step_simps counter_inv_def dest!: set_updateD)
      next
        case Incr
        have w: "wrap32 (shared_data g + 1) = shared_data g + 1"
          using inv lt by (intro wrap32_id) (auto simp: INT_MAX_def)
        have r1: "\<And>q. q \<in> set (pcs[t := Done]) \<Longrightarrow> reg_ok (finished pcs + 1) q"
          using regs reg_ok_mono[of "finished pcs" _ "finished pcs + 1"]
          by (auto dest!: set_updateD)
        have r2: "\<And>q. q \<in> set (pcs[t := Loaded (shared_data g)]) \<Longrightarrow> reg_ok (finished pcs) q"
          using regs inv by (auto dest!: set_updateD)
        show ?thesis
          using inv True Incr w more same[of "Loaded (shared_data g)"] r1 r2
          by (auto simp: Pair thread_step_simps counter_inv_def)
      next
        case (Loaded eax)
        have e: "0 \<le> eax" "eax \<le> int (finished pcs)" using rt Loaded by auto
        have w: "wrap32 (eax + 1) = eax + 1"
          using e inv lt by (intro wrap32_id) (auto simp: INT_MAX_def)
        have r: "\<And>q. q \<in> set (pcs[t := Added (eax + 1)]) \<Longrightarrow> reg_ok (finished pcs) q"
          using regs e by (auto dest!: set_updateD)
        show ?thesis
          using inv True Loaded w same[of "Added (eax + 1)"] r
          by (auto simp: Pair thread_step_simps counter_inv_def)
      next
        case (Added eax)
        have e: "1 \<le> eax" "eax \<le> int (finished pcs) + 1" using rt Added by auto
        have r1: "\<And>q. q \<in> set (pcs[t := Done]) \<Longrightarrow> reg_ok (finished pcs + 1) q"
          using regs reg_ok_mono[of "finished pcs" _ "finished pcs + 1"]
          by (auto dest!: set_updateD)
        show ?thesis
          using inv True Added more e r1
          by (auto simp: Pair thread_step_simps counter_inv_def)
      next
        case Done
        then show ?thesis using notdone by simp
      qed
    qed
  qed
qed

lemma atomic_inv_step:
  assumes "atomic_inv m"
  shows "atomic_inv (thread_step t m)"
proof (cases m)
  case (Pair g pcs)
  show ?thesis
  proof (cases "t < length pcs")
    case False
    then show ?thesis using assms Pair by (simp add: thread_step_simps)
  next
    case True
    note inv = assms[unfolded Pair atomic_inv_def, simplified]
    have regs: "\<And>q. q \<in> set pcs \<Longrightarrow> no_reg q" using inv by simp
    have rt: "no_reg (pcs ! t)" using regs nth_mem[OF True] by simp
    show ?thesis
    proof (cases "pcs ! t = Done")
      case True
      have "pcs[t := Done] = pcs" using \<open>t < length pcs\<close> True by (metis list_update_id)
      then show ?thesis using assms \<open>t < length pcs\<close> True by (simp add: Pair thread_step_simps)
    next
      case notdone: False
      have lt: "finished pcs < length pcs" using finished_less[OF True notdone] .
      have same: "p \<noteq> Done \<Longrightarrow> finished (pcs[t := p]) = finished pcs" for p
        using finished_update[OF True, of p] notdone by simp
      have more: "finished (pcs[t := Done]) = finished pcs + 1"
        using finished_update[OF True, of Done] notdone by simp
      have w: "wrap32 (shared_data g + 1) = shared_data g + 1"
        using inv lt by (intro wrap32_id) (auto simp: INT_MAX_def)
      show ?thesis
        using inv True rt notdone w more same[of Spin] same[of Incr] regs
        by (cases "pcs ! t")
           (auto simp: Pair thread_step_simps atomic_inv_def dest!: set_updateD)
    qed
  qed
qed

lemma barrier_inv_exec: "barrier_inv m \<Longrightarrow> barrier_inv (exec sched k m)"
  by (induction k) (auto intro: barrier_inv_step)

lemma counter_inv_exec: "counter_inv m \<Longrightarrow> counter_inv (exec sched k m)"
  by (induction k) (auto intro: counter_inv_step)

lemma atomic_inv_exec: "atomic_inv m \<Longrightarrow> atomic_inv (exec sched k m)"
  by (induction k) (auto intro: atomic_inv_step)

text \<open>The start of a trial.\<close>

lemma finished_replicate [simp]: "finished (replicate n Arrive) = 0"
  by (simp add: finished_def)

lemma arrived_replicate [simp]: "arrived (replicate n Arrive) = 0"
  by (simp add: arrived_def)

lemma barrier_inv_start:
  "wait_lock g = 0 \<Longrightarrow> thread_count g = n \<Longrightarrow> 0 \<le> n \<Longrightarrow> n \<le> INT_MAX
     \<Longrightarrow> barrier_inv (g, replicate (nat n) Arrive)"
  by (auto simp: barrier_inv_def)

lemma counter_inv_start:
  "shared_data g = 0 \<Longrightarrow> n \<le> INT_MAX \<Longrightarrow> counter_inv (g, replicate (nat n) Arrive)"
  by (auto simp: counter_inv_def INT_MAX_def)

lemma atomic_inv_start:
  "shared_data g = 0 \<Longrightarrow> USE_ATOMICS g \<Longrightarrow> n \<le> INT_MAX
     \<Longrightarrow> atomic_inv (g, replicate (nat n) Arrive)"
  by (auto simp: atomic_inv_def INT_MAX_def)

lemma finished_all: "all_done (g, pcs) \<Longrightarrow> finished pcs = length pcs"
  by (induction pcs) (auto simp: all_done_def finished_def)

lemma same_config_refl [simp]: "same_config g g"
  by (simp add: same_config_def)

lemma same_config_trans: "same_config g g' \<Longrightarrow> same_config g' g'' \<Longrightarrow> same_config g g''"
  by (simp add: same_config_def)

lemma worker_config: "same_config g (fst (worker g p))"
  by (cases p) (auto simp: same_config_def)

lemma thread_step_config: "same_config (fst m) (fst (thread_step t m))"
  by (cases m) (simp add: thread_step_simps worker_config)

lemma thread_step_length: "length (snd (thread_step t m)) = length (snd m)"
  by (cases m) (simp add: thread_step_simps)

lemma exec_config: "same_config (fst m) (fst (exec sched k m))"
  by (induction k) (auto intro: same_config_trans thread_step_config)

lemma exec_length: "length (snd (exec sched k m)) = length (snd m)"
  by (induction k) (auto simp: thread_step_length)

lemma thread_step_done: "all_done m \<Longrightarrow> thread_step t m = m"
proof (cases m)
  case (Pair g pcs)
  assume d: "all_done m"
  show ?thesis
  proof (cases "t < length pcs")
    case True
    then have "pcs ! t = Done" using d Pair by (auto simp: all_done_def list_all_length)
    then show ?thesis using True Pair list_update_id[of pcs t] by (simp add: thread_step_simps)
  next
    case False
    then show ?thesis using Pair by (simp add: thread_step_simps)
  qed
qed

lemma exec_done: "all_done m \<Longrightarrow> exec sched k m = m"
  by (induction k) (auto simp: thread_step_done)

lemma exec_shift: "exec sched (Suc k) m = exec (\<lambda>i. sched (Suc i)) k (thread_step (sched 0) m)"
  by (induction k) auto

lemma join_all_exec:
  assumes "join_all sched i m = Some g'"
  shows "\<exists>k. all_done (exec (\<lambda>j. sched (i + j)) k m)
           \<and> g' = fst (exec (\<lambda>j. sched (i + j)) k m)"
proof (rule join_all.raw_induct[where P = "\<lambda>sched i m g'.
         \<exists>k. all_done (exec (\<lambda>j. sched (i + j)) k m)
           \<and> g' = fst (exec (\<lambda>j. sched (i + j)) k m)", OF _ assms])
  fix f :: "(nat \<Rightarrow> nat) \<Rightarrow> nat \<Rightarrow> machine \<Rightarrow> globals option" and sched i m g'
  assume IH: "\<And>sched i m g'. f sched i m = Some g' \<Longrightarrow>
         \<exists>k. all_done (exec (\<lambda>j. sched (i + j)) k m)
           \<and> g' = fst (exec (\<lambda>j. sched (i + j)) k m)"
    and body: "(if all_done m then Some (fst m)
                else f sched (Suc i) (thread_step (sched i) m)) = Some g'"
  show "\<exists>k. all_done (exec (\<lambda>j. sched (i + j)) k m)
           \<and> g' = fst (exec (\<lambda>j. sched (i + j)) k m)"
  proof (cases "all_done m")
    case True
    then show ?thesis using body by (intro exI[of _ 0]) auto
  next
    case False
    then have "f sched (Suc i) (thread_step (sched i) m) = Some g'" using body by simp
    from IH[OF this] obtain k where
      k: "all_done (exec (\<lambda>j. sched (Suc i + j)) k (thread_step (sched i) m))"
         "g' = fst (exec (\<lambda>j. sched (Suc i + j)) k (thread_step (sched i) m))"
      by blast
    have "exec (\<lambda>j. sched (i + j)) (Suc k) m
            = exec (\<lambda>j. sched (Suc i + j)) k (thread_step (sched i) m)"
      by (simp only: exec_shift) simp
    then show ?thesis using k by (intro exI[of _ "Suc k"]) (simp del: exec.simps)
  qed
qed

lemma exec_join_all:
  "all_done (exec (\<lambda>j. sched (i + j)) k m) \<Longrightarrow>
     join_all sched i m = Some (fst (exec (\<lambda>j. sched (i + j)) k m))"
proof (induction k arbitrary: i m)
  case 0
  then show ?case by (simp add: join_all.simps)
next
  case (Suc k)
  show ?case
  proof (cases "all_done m")
    case True
    then show ?thesis by (simp add: join_all.simps exec_done del: exec.simps)
  next
    case False
    have eq: "exec (\<lambda>j. sched (i + j)) (Suc k) m
            = exec (\<lambda>j. sched (Suc i + j)) k (thread_step (sched i) m)"
      by (simp only: exec_shift) simp
    then have "all_done (exec (\<lambda>j. sched (Suc i + j)) k (thread_step (sched i) m))"
      using Suc.prems by simp
    from Suc.IH[OF this] show ?thesis
      using False eq by (subst join_all.simps) (simp del: exec.simps)
  qed
qed

lemma rank_le: "rank p \<le> 5"
  by (cases p) auto

lemma progress_le: "progress m \<le> 5 * length (snd m)"
  unfolding progress_def
proof (induction "snd m" arbitrary: m)
  case Nil
  then show ?case by simp
next
  case (Cons p ps)
  from Cons(1)[of "(fst m, ps)"] have "sum_list (map rank ps) \<le> 5 * length ps" by simp
  then show ?case using rank_le[of p] Cons(2)[symmetric] by simp
qed

lemma progress_update:
  "t < length pcs \<Longrightarrow>
     progress (g', pcs[t := p]) + rank (pcs ! t) = progress (g, pcs) + rank p"
proof (induction pcs arbitrary: t)
  case Nil
  then show ?case by simp
next
  case (Cons q qs)
  show ?case
  proof (cases t)
    case 0
    then show ?thesis by (simp add: progress_def)
  next
    case (Suc n)
    with Cons.prems have "n < length qs" by simp
    from Cons.IH[OF this] show ?thesis using Suc by (simp add: progress_def)
  qed
qed

lemma worker_rank: "rank p \<le> rank (snd (worker g p))"
  by (cases p) auto

lemma worker_rank_less:
  "p \<noteq> Done \<Longrightarrow> (p = Spin \<Longrightarrow> wait_lock g = thread_count g)
     \<Longrightarrow> rank p < rank (snd (worker g p))"
  by (cases p) auto

lemma progress_step: "progress m \<le> progress (thread_step t m)"
proof (cases m)
  case (Pair g pcs)
  show ?thesis
  proof (cases "t < length pcs")
    case True
    from progress_update[OF True, of "fst (worker g (pcs ! t))" "snd (worker g (pcs ! t))" g]
    show ?thesis using True worker_rank[of "pcs ! t" g]
      by (simp add: Pair thread_step_simps)
  next
    case False
    then show ?thesis by (simp add: Pair thread_step_simps)
  qed
qed

lemma progress_step_less:
  assumes "t < length pcs" "pcs ! t \<noteq> Done"
    and "pcs ! t = Spin \<Longrightarrow> wait_lock g = thread_count g"
  shows "progress (g, pcs) < progress (thread_step t (g, pcs))"
  using progress_update[OF assms(1), of "fst (worker g (pcs ! t))"
          "snd (worker g (pcs ! t))" g]
        worker_rank_less[OF assms(2,3)] assms(1)
  by (simp add: thread_step_simps)

lemma progress_exec_mono: "i \<le> j \<Longrightarrow> progress (exec sched i m) \<le> progress (exec sched j m)"
proof (induction j)
  case 0
  then show ?case by simp
next
  case (Suc j)
  show ?case
  proof (cases "i = Suc j")
    case True
    then show ?thesis by simp
  next
    case False
    then have "i \<le> j" using Suc.prems by simp
    from Suc.IH[OF this] show ?thesis
      using progress_step[of "exec sched j m" "sched j"] by simp
  qed
qed

lemma thread_step_other: "s \<noteq> t \<Longrightarrow> snd (thread_step s m) ! t = snd m ! t"
  by (cases m) (simp add: thread_step_simps)

lemma exec_unscheduled:
  "i \<le> j \<Longrightarrow> (\<And>k. i \<le> k \<Longrightarrow> k < j \<Longrightarrow> sched k \<noteq> t)
     \<Longrightarrow> snd (exec sched j m) ! t = snd (exec sched i m) ! t"
proof (induction j)
  case 0
  then show ?case by simp
next
  case (Suc j)
  show ?case
  proof (cases "i = Suc j")
    case True
    then show ?thesis by simp
  next
    case False
    then have ij: "i \<le> j" using Suc.prems(1) by simp
    have "snd (exec sched j m) ! t = snd (exec sched i m) ! t"
      using Suc.IH[OF ij] Suc.prems(2) by simp
    moreover have "sched j \<noteq> t" using Suc.prems(2)[of j] ij by simp
    ultimately show ?thesis by (simp add: thread_step_other)
  qed
qed

lemma worker_not_Arrive: "snd (worker g p) \<noteq> Arrive"
  by (cases p) auto

lemma thread_step_no_Arrive:
  "Arrive \<notin> set (snd m) \<Longrightarrow> Arrive \<notin> set (snd (thread_step t m))"
  by (cases m) (auto simp: thread_step_simps worker_not_Arrive[THEN not_sym] dest!: set_updateD)

lemma all_arrived_wait_lock:
  assumes "barrier_inv m" "Arrive \<notin> set (snd m)"
  shows "wait_lock (fst m) = thread_count (fst m)"
  using assms arrived_all[of "snd m"] by (simp add: barrier_inv_def)

lemma not_all_done: "\<not> all_done m \<Longrightarrow> \<exists>t<length (snd m). snd m ! t \<noteq> Done"
  by (auto simp: all_done_def list_all_length)

lemma fair_next:
  assumes "fair n sched" "t < n"
  shows "\<exists>j\<ge>i. sched j = t \<and> (\<forall>k. i \<le> k \<and> k < j \<longrightarrow> sched k \<noteq> t)"
proof -
  from assms have ex: "\<exists>j. i \<le> j \<and> sched j = t" by (auto simp: fair_def)
  define j where "j = (LEAST j. i \<le> j \<and> sched j = t)"
  have "i \<le> j \<and> sched j = t" unfolding j_def using ex by (rule LeastI_ex)
  moreover have "\<And>k. i \<le> k \<Longrightarrow> k < j \<Longrightarrow> sched k \<noteq> t"
    unfolding j_def using not_less_Least by blast
  ultimately show ?thesis by blast
qed

lemma progress_eventually:
  assumes inv: "barrier_inv m0" and fair: "fair (length (snd m0)) sched"
    and nd: "\<not> all_done (exec sched i m0)"
  shows "\<exists>j\<ge>i. progress (exec sched i m0) < progress (exec sched (Suc j) m0)"
proof -
  let ?m = "\<lambda>k. exec sched k m0"
  have len: "\<And>k. length (snd (?m k)) = length (snd m0)" by (simp add: exec_length)
  have binv: "\<And>k. barrier_inv (?m k)" using inv by (rule barrier_inv_exec)
  have step: "\<exists>j\<ge>i. progress (?m j) < progress (?m (Suc j))"
    if t: "t < length (snd m0)" and td: "snd (?m i) ! t \<noteq> Done"
      and en: "\<And>j. i \<le> j \<Longrightarrow> snd (?m j) ! t = Spin
                 \<Longrightarrow> wait_lock (fst (?m j)) = thread_count (fst (?m j))" for t
  proof -
    from fair_next[OF fair t, of i] obtain j where
      j: "i \<le> j" "sched j = t" "\<And>k. i \<le> k \<Longrightarrow> k < j \<Longrightarrow> sched k \<noteq> t" by blast
    have same: "snd (?m j) ! t = snd (?m i) ! t"
      using exec_unscheduled[OF j(1), of sched t m0] j(3) by blast
    have "progress (fst (?m j), snd (?m j)) < progress (thread_step t (fst (?m j), snd (?m j)))"
      using t td same en[OF j(1)] len[of j] by (intro progress_step_less) auto
    then show ?thesis using j by (intro exI[of _ j]) simp
  qed
  have "\<exists>j\<ge>i. progress (?m j) < progress (?m (Suc j))"
  proof (cases "Arrive \<in> set (snd (?m i))")
    case True
    then obtain t where t: "t < length (snd (?m i))" "snd (?m i) ! t = Arrive"
      by (auto simp: in_set_conv_nth)
    from fair_next[OF fair, of t i] t len[of i] obtain j where
      j: "i \<le> j" "sched j = t" "\<And>k. i \<le> k \<Longrightarrow> k < j \<Longrightarrow> sched k \<noteq> t" by auto
    have same: "snd (?m j) ! t = Arrive"
      using exec_unscheduled[OF j(1), of sched t m0] j(3) t(2) by auto
    have "progress (fst (?m j), snd (?m j)) < progress (thread_step t (fst (?m j), snd (?m j)))"
      using t same len[of j] len[of i] by (intro progress_step_less) auto
    then show ?thesis using j by (intro exI[of _ j]) simp
  next
    case False
    have noA: "Arrive \<notin> set (snd (?m j))" if "i \<le> j" for j
      using that
    proof (induction j)
      case 0
      then show ?case using False by simp
    next
      case (Suc j)
      show ?case
      proof (cases "i = Suc j")
        case True
        then show ?thesis using False by simp
      next
        case ne: False
        then have "i \<le> j" using Suc.prems by simp
        from Suc.IH[OF this] show ?thesis by (simp add: thread_step_no_Arrive)
      qed
    qed
    from not_all_done[OF nd] obtain t where t: "t < length (snd m0)" "snd (?m i) ! t \<noteq> Done"
      using len[of i] by auto
    show ?thesis
      using step[OF t] all_arrived_wait_lock[OF binv noA] by blast
  qed
  then obtain j where j: "i \<le> j" "progress (?m j) < progress (?m (Suc j))" by blast
  have "progress (?m i) \<le> progress (?m j)" using progress_exec_mono[OF j(1)] .
  then show ?thesis using j by (intro exI[of _ j]) simp
qed

lemma fair_terminates:
  assumes inv: "barrier_inv m0" and fair: "fair (length (snd m0)) sched"
  shows "\<exists>k. all_done (exec sched k m0)"
proof -
  have "\<exists>k. all_done (exec sched k m0)" for i :: nat
  proof (induction "5 * length (snd m0) - progress (exec sched i m0)" arbitrary: i rule: less_induct)
    case less
    show ?case
    proof (cases "all_done (exec sched i m0)")
      case True
      then show ?thesis by blast
    next
      case False
      from progress_eventually[OF inv fair False] obtain j where
        j: "progress (exec sched i m0) < progress (exec sched (Suc j) m0)" by blast
      have "progress (exec sched (Suc j) m0) \<le> 5 * length (snd m0)"
        using progress_le[of "exec sched (Suc j) m0"] by (simp only: exec_length)
      then have "5 * length (snd m0) - progress (exec sched (Suc j) m0)
               < 5 * length (snd m0) - progress (exec sched i m0)"
        using j by simp
      from less[OF this] show ?thesis .
    qed
  qed
  then show ?thesis by blast
qed

subsection \<open>The threads of a trial: termination under a fair schedule\<close>

lemma trial_returns:
  assumes "wait_lock g = 0" "thread_count g = n" "0 \<le> n" "n \<le> INT_MAX"
    and "fair (nat n) sched"
  shows "\<exists>g'. create_threads_and_launch_worker sched n g = Some g'"
proof -
  let ?m0 = "(g, replicate (nat n) Arrive)"
  have "barrier_inv ?m0" using assms by (intro barrier_inv_start) auto
  moreover have "fair (length (snd ?m0)) sched" using assms by simp
  ultimately obtain k where "all_done (exec sched k ?m0)"
    using fair_terminates by blast
  then have "all_done (exec (\<lambda>j. sched (0 + j)) k ?m0)" by simp
  from exec_join_all[OF this] show ?thesis
    by (simp add: create_threads_and_launch_worker_def)
qed

lemma trial_result:
  assumes "create_threads_and_launch_worker sched n g = Some g'"
  shows "\<exists>k. all_done (exec sched k (g, replicate (nat n) Arrive))
           \<and> g' = fst (exec sched k (g, replicate (nat n) Arrive))"
  using join_all_exec[OF assms[unfolded create_threads_and_launch_worker_def]] by simp

lemma trial_config:
  assumes "create_threads_and_launch_worker sched n g = Some g'"
  shows "same_config g g'"
  using trial_result[OF assms] exec_config[of "(g, replicate (nat n) Arrive)" sched] by auto

lemma fair_round_robin: "0 < n \<Longrightarrow> fair n (\<lambda>k. k mod n)"
  unfolding fair_def
proof (intro allI impI)
  fix t i assume "0 < n" "t < n"
  then have "i \<le> i * n" by (cases n) auto
  then have "i \<le> i * n + t" by linarith
  moreover have "(i * n + t) mod n = t" using \<open>t < n\<close> by simp
  ultimately show "\<exists>j\<ge>i. j mod n = t" by blast
qed

subsection \<open>The synchronized counter\<close>

text \<open>
  C1. With \<open>USE_ATOMICS\<close> set, a trial of \<open>thread_count \<ge> 1\<close> threads that starts
  from \<open>wait_lock = 0\<close> and \<open>shared_data = 0\<close> (the state at program start and after
  every reset) leaves \<open>shared_data = thread_count\<close>, whatever the schedule: no
  increment is lost. Under a fair schedule the trial does return.
\<close>

theorem atomic_trial_exact:
  assumes "USE_ATOMICS g" and "1 \<le> thread_count g" and "thread_count g \<le> INT_MAX"
    and "wait_lock g = 0" and "shared_data g = 0"
  shows "(\<forall>g'. create_threads_and_launch_worker sched (thread_count g) g = Some g'
            \<longrightarrow> shared_data g' = thread_count g)
       \<and> (fair (nat (thread_count g)) sched
            \<longrightarrow> (\<exists>g'. create_threads_and_launch_worker sched (thread_count g) g = Some g'))"
proof (intro conjI allI impI)
  fix g' assume "create_threads_and_launch_worker sched (thread_count g) g = Some g'"
  from trial_result[OF this] obtain k where
    k: "all_done (exec sched k (g, replicate (nat (thread_count g)) Arrive))"
       "g' = fst (exec sched k (g, replicate (nat (thread_count g)) Arrive))" by blast
  let ?m = "exec sched k (g, replicate (nat (thread_count g)) Arrive)"
  have "atomic_inv ?m"
    using assms by (intro atomic_inv_exec atomic_inv_start) auto
  moreover have "finished (snd ?m) = length (snd ?m)"
    using k(1) finished_all[of "fst ?m" "snd ?m"] by simp
  moreover have "length (snd ?m) = nat (thread_count g)" by (simp add: exec_length)
  ultimately show "shared_data g' = thread_count g"
    using k(2) assms(2) by (simp add: atomic_inv_def)
next
  assume "fair (nat (thread_count g)) sched"
  then show "\<exists>g'. create_threads_and_launch_worker sched (thread_count g) g = Some g'"
    using assms by (intro trial_returns) auto
qed

text \<open>
  Three threads taking turns, on the synchronized counter: the trial returns
  \<open>shared_data = 3\<close>.
\<close>

theorem atomic_trial_exact_witness:
  "USE_ATOMICS (initial_globals\<lparr>USE_ATOMICS := True, thread_count := 3\<rparr>)
   \<and> fair 3 (\<lambda>k. k mod 3)
   \<and> map_option shared_data (create_threads_and_launch_worker (\<lambda>k. k mod 3) 3
        (initial_globals\<lparr>USE_ATOMICS := True, thread_count := 3\<rparr>)) = Some 3"
  using atomic_trial_exact[of "initial_globals\<lparr>USE_ATOMICS := True, thread_count := 3\<rparr>" "\<lambda>k. k mod 3"]
        fair_round_robin[of 3]
  by (auto simp: initial_globals_def INT_MAX_def)

subsection \<open>The unsynchronized counter\<close>

text \<open>
  C3. With \<open>USE_ATOMICS\<close> clear and \<open>thread_count \<ge> 2\<close>, the outcome of a trial is at
  most \<open>thread_count\<close> (and at least 1), whatever the schedule: increments are lost,
  never duplicated. Under a fair schedule the trial does return.
\<close>

theorem plain_trial_bounded:
  assumes "\<not> USE_ATOMICS g" and "2 \<le> thread_count g" and "thread_count g \<le> INT_MAX"
    and "wait_lock g = 0" and "shared_data g = 0"
  shows "(\<forall>g'. create_threads_and_launch_worker sched (thread_count g) g = Some g'
            \<longrightarrow> 1 \<le> shared_data g' \<and> shared_data g' \<le> thread_count g)
       \<and> (fair (nat (thread_count g)) sched
            \<longrightarrow> (\<exists>g'. create_threads_and_launch_worker sched (thread_count g) g = Some g'))"
proof (intro conjI allI impI)
  fix g' assume r: "create_threads_and_launch_worker sched (thread_count g) g = Some g'"
  from trial_result[OF this] obtain k where
    k: "all_done (exec sched k (g, replicate (nat (thread_count g)) Arrive))"
       "g' = fst (exec sched k (g, replicate (nat (thread_count g)) Arrive))" by blast
  let ?m = "exec sched k (g, replicate (nat (thread_count g)) Arrive)"
  have inv: "counter_inv ?m"
    using assms by (intro counter_inv_exec counter_inv_start) auto
  have fin: "finished (snd ?m) = nat (thread_count g)"
    using k(1) finished_all[of "fst ?m" "snd ?m"] by (simp add: exec_length)
  show "1 \<le> shared_data g'" using inv fin k(2) assms(2) by (simp add: counter_inv_def)
  show "shared_data g' \<le> thread_count g" using inv fin k(2) assms(2) by (simp add: counter_inv_def)
next
  assume "fair (nat (thread_count g)) sched"
  then show "\<exists>g'. create_threads_and_launch_worker sched (thread_count g) g = Some g'"
    using assms by (intro trial_returns) auto
qed

text \<open>
  Two threads taking turns, on the unsynchronized counter: both load 0, both store 1,
  and the trial returns \<open>shared_data = 1\<close>, one increment lost.
\<close>

theorem plain_trial_bounded_witness:
  "\<not> USE_ATOMICS (initial_globals\<lparr>thread_count := 2\<rparr>)
   \<and> fair 2 (\<lambda>k. k mod 2)
   \<and> map_option shared_data (create_threads_and_launch_worker (\<lambda>k. k mod 2) 2
        (initial_globals\<lparr>thread_count := 2\<rparr>)) = Some 1"
proof -
  have run: "map_option shared_data (create_threads_and_launch_worker (\<lambda>k. k mod 2) 2
        (initial_globals\<lparr>thread_count := 2\<rparr>)) = Some 1"
    by code_simp
  show ?thesis
    using plain_trial_bounded[of "initial_globals\<lparr>thread_count := 2\<rparr>" "\<lambda>k. k mod 2"]
          fair_round_robin[of 2] run
    by (auto simp: initial_globals_def INT_MAX_def)
qed

subsection \<open>The barrier\<close>

text \<open>
  C2. In a trial of \<open>thread_count \<ge> 1\<close> threads that starts from \<open>wait_lock = 0\<close>,
  whenever a thread is past the loop of \<open>barrier\<close> the arrival counter \<open>wait_lock\<close>
  equals \<open>thread_count\<close>, whatever the schedule; and under a fair schedule there is a
  step after which every thread is past the barrier: none spins forever.
\<close>

theorem barrier_releases_all:
  assumes "1 \<le> thread_count g" and "thread_count g \<le> INT_MAX" and "wait_lock g = 0"
  shows "(\<forall>k t. t < nat (thread_count g)
            \<and> past_barrier (snd (exec sched k (g, replicate (nat (thread_count g)) Arrive)) ! t)
            \<longrightarrow> wait_lock (fst (exec sched k (g, replicate (nat (thread_count g)) Arrive)))
                  = thread_count g)
       \<and> (fair (nat (thread_count g)) sched
            \<longrightarrow> (\<exists>k. \<forall>t<nat (thread_count g).
                   past_barrier (snd (exec sched k (g, replicate (nat (thread_count g)) Arrive)) ! t)))"
proof (intro conjI allI impI)
  let ?m0 = "(g, replicate (nat (thread_count g)) Arrive)"
  have inv0: "barrier_inv ?m0" using assms by (intro barrier_inv_start) auto
  {
    fix k t
    assume a: "t < nat (thread_count g) \<and> past_barrier (snd (exec sched k ?m0) ! t)"
    have inv: "barrier_inv (exec sched k ?m0)" using inv0 by (rule barrier_inv_exec)
    have "t < length (snd (exec sched k ?m0))" using a by (simp add: exec_length)
    then have "\<exists>p\<in>set (snd (exec sched k ?m0)). past_barrier p"
      using a nth_mem by blast
    then have "wait_lock (fst (exec sched k ?m0)) = thread_count (fst (exec sched k ?m0))"
      using inv by (simp add: barrier_inv_def)
    moreover have "thread_count (fst (exec sched k ?m0)) = thread_count g"
      using exec_config[of ?m0 sched k] by (simp add: same_config_def)
    ultimately show "wait_lock (fst (exec sched k ?m0)) = thread_count g" by simp
  }
  {
    assume "fair (nat (thread_count g)) sched"
    then have "fair (length (snd ?m0)) sched" by simp
    from fair_terminates[OF inv0 this] obtain k where k: "all_done (exec sched k ?m0)" by blast
    have "\<forall>t<nat (thread_count g). past_barrier (snd (exec sched k ?m0) ! t)"
    proof (intro allI impI)
      fix t assume "t < nat (thread_count g)"
      then have "t < length (snd (exec sched k ?m0))" by (simp add: exec_length)
      then have "snd (exec sched k ?m0) ! t = Done"
        using k by (simp add: all_done_def list_all_length)
      then show "past_barrier (snd (exec sched k ?m0) ! t)" by simp
    qed
    then show "\<exists>k. \<forall>t<nat (thread_count g). past_barrier (snd (exec sched k ?m0) ! t)" by blast
  }
qed

text \<open>
  Four threads taking turns with \<open>thread_count = 4\<close>: after five steps the first
  thread is past the barrier and \<open>wait_lock\<close> is 4, and there is a step after which
  all four are past it.
\<close>

theorem barrier_releases_all_witness:
  "fair 4 (\<lambda>k. k mod 4)
   \<and> past_barrier (snd (exec (\<lambda>k. k mod 4) 5 (initial_globals\<lparr>thread_count := 4\<rparr>, replicate 4 Arrive)) ! 0)
   \<and> wait_lock (fst (exec (\<lambda>k. k mod 4) 5 (initial_globals\<lparr>thread_count := 4\<rparr>, replicate 4 Arrive))) = 4
   \<and> (\<exists>k. list_all past_barrier
          (snd (exec (\<lambda>k. k mod 4) k (initial_globals\<lparr>thread_count := 4\<rparr>, replicate 4 Arrive))))"
proof -
  let ?g = "initial_globals\<lparr>thread_count := 4\<rparr>"
  let ?s = "\<lambda>k::nat. k mod 4"
  have f: "fair 4 ?s" using fair_round_robin[of 4] by simp
  have p: "past_barrier (snd (exec ?s 5 (?g, replicate 4 Arrive)) ! 0)"
    by code_simp
  note b = barrier_releases_all[of ?g ?s]
  have h: "1 \<le> thread_count ?g" "thread_count ?g \<le> INT_MAX" "wait_lock ?g = 0"
    by (simp_all add: initial_globals_def INT_MAX_def)
  have n: "nat (thread_count ?g) = 4" by simp
  from b[OF h] have
    safe: "\<And>k t. t < 4 \<Longrightarrow> past_barrier (snd (exec ?s k (?g, replicate 4 Arrive)) ! t)
              \<Longrightarrow> wait_lock (fst (exec ?s k (?g, replicate 4 Arrive))) = 4"
    and live: "\<exists>k. \<forall>t<4. past_barrier (snd (exec ?s k (?g, replicate 4 Arrive)) ! t)"
    using f by (simp_all only: n) auto
  have w: "wait_lock (fst (exec ?s 5 (?g, replicate 4 Arrive))) = 4"
    using safe[of 0 5] p by simp
  from live obtain k where "\<forall>t<4. past_barrier (snd (exec ?s k (?g, replicate 4 Arrive)) ! t)"
    by blast
  then have "list_all past_barrier (snd (exec ?s k (?g, replicate 4 Arrive)))"
    by (simp add: list_all_length exec_length)
  then show ?thesis using f p w by blast
qed

subsection \<open>The loops of complex_mode\<close>

text \<open>
  What the inner loop returns, when it returns: the configuration unchanged, the barrier
  counter reset, one outcome recorded for each remaining experiment, and the success
  count of those outcomes. Under fair schedules it returns.
\<close>

lemma experiments_partial_aux:
  assumes "experiments scheds e g s rs = Some r"
  shows "same_config g (fst r) \<and> (wait_lock g = 0 \<longrightarrow> wait_lock (fst r) = 0)
       \<and> (\<exists>batch. snd (snd r) = rs @ batch \<and> fst (snd r) = tally (thread_count g) batch s
              \<and> int (length batch) = max 0 (total_experiments g - int e))"
proof (rule experiments.raw_induct[where P = "\<lambda>scheds e g s rs r.
         same_config g (fst r) \<and> (wait_lock g = 0 \<longrightarrow> wait_lock (fst r) = 0)
       \<and> (\<exists>batch. snd (snd r) = rs @ batch \<and> fst (snd r) = tally (thread_count g) batch s
              \<and> int (length batch) = max 0 (total_experiments g - int e))",
       OF _ assms])
  fix f :: "(nat \<Rightarrow> nat \<Rightarrow> nat) \<Rightarrow> nat \<Rightarrow> globals \<Rightarrow> int \<Rightarrow> int list \<Rightarrow> (globals \<times> int \<times> int list) option"
    and scheds e g s rs r
  assume IH: "\<And>scheds e g s rs r. f scheds e g s rs = Some r \<Longrightarrow>
         same_config g (fst r) \<and> (wait_lock g = 0 \<longrightarrow> wait_lock (fst r) = 0)
       \<and> (\<exists>batch. snd (snd r) = rs @ batch \<and> fst (snd r) = tally (thread_count g) batch s
              \<and> int (length batch) = max 0 (total_experiments g - int e))"
    and body: "(if int e < total_experiments g then
        (case create_threads_and_launch_worker (scheds e) (thread_count g) g of
           None \<Rightarrow> None
         | Some g1 \<Rightarrow>
             f scheds (Suc e) (g1\<lparr>wait_lock := 0, shared_data := 0\<rparr>)
               (if shared_data g1 = thread_count g1 then s + 1 else s)
               (rs @ [shared_data g1]))
      else Some (g, s, rs)) = Some r"
  show "same_config g (fst r) \<and> (wait_lock g = 0 \<longrightarrow> wait_lock (fst r) = 0)
       \<and> (\<exists>batch. snd (snd r) = rs @ batch \<and> fst (snd r) = tally (thread_count g) batch s
              \<and> int (length batch) = max 0 (total_experiments g - int e))"
  proof (cases "int e < total_experiments g")
    case False
    then show ?thesis using body by auto
  next
    case True
    then obtain g' where t: "create_threads_and_launch_worker (scheds e) (thread_count g) g = Some g'"
      and r: "f scheds (Suc e) (g'\<lparr>wait_lock := 0, shared_data := 0\<rparr>)
               (if shared_data g' = thread_count g' then s + 1 else s)
               (rs @ [shared_data g']) = Some r"
      using body by (auto split: option.splits)
    have c: "same_config g g'" using trial_config[OF t] .
    from IH[OF r] obtain batch where
      b: "same_config (g'\<lparr>wait_lock := 0, shared_data := 0\<rparr>) (fst r)" "wait_lock (fst r) = 0"
         "snd (snd r) = (rs @ [shared_data g']) @ batch"
         "fst (snd r) = tally (thread_count g') batch (if shared_data g' = thread_count g' then s + 1 else s)"
         "int (length batch) = max 0 (total_experiments g' - int (Suc e))"
      by auto
    have "snd (snd r) = rs @ (shared_data g' # batch)" using b(3) by simp
    moreover have "fst (snd r) = tally (thread_count g) (shared_data g' # batch) s"
      using b(4) c by (simp add: same_config_def)
    moreover have "int (length (shared_data g' # batch)) = max 0 (total_experiments g - int e)"
      using b(5) c True by (simp add: same_config_def)
    moreover have "same_config g (fst r)" using b(1) c by (simp add: same_config_def)
    ultimately show ?thesis using b(2) by blast
  qed
qed

lemma experiments_partial:
  assumes "experiments scheds e g s rs = Some (g1, s1, rs1)"
  shows "same_config g g1 \<and> (wait_lock g = 0 \<longrightarrow> wait_lock g1 = 0)
       \<and> (\<exists>batch. rs1 = rs @ batch \<and> s1 = tally (thread_count g) batch s
              \<and> int (length batch) = max 0 (total_experiments g - int e))"
  using experiments_partial_aux[OF assms] by simp

lemma experiments_total:
  assumes "\<And>e. fair (nat (thread_count g)) (scheds e)"
    and "wait_lock g = 0" "0 \<le> thread_count g" "thread_count g \<le> INT_MAX"
  shows "\<exists>r. experiments scheds e g s rs = Some r"
  using assms
proof (induction "nat (total_experiments g - int e)" arbitrary: e g s rs)
  case 0
  then show ?case by (subst experiments.simps) simp
next
  case (Suc d)
  then have lt: "int e < total_experiments g" by linarith
  from trial_returns[OF Suc.prems(2) refl Suc.prems(3,4) Suc.prems(1)[of e]]
  obtain g' where t: "create_threads_and_launch_worker (scheds e) (thread_count g) g = Some g'"
    by blast
  have c: "same_config g g'" using trial_config[OF t] .
  let ?g2 = "g'\<lparr>wait_lock := 0, shared_data := 0\<rparr>"
  have "d = nat (total_experiments ?g2 - int (Suc e))"
    using Suc(2) c by (simp add: same_config_def)
  moreover have "\<And>e. fair (nat (thread_count ?g2)) (scheds e)"
    using Suc.prems(1) c by (simp add: same_config_def)
  moreover have "wait_lock ?g2 = 0" "0 \<le> thread_count ?g2" "thread_count ?g2 \<le> INT_MAX"
    using Suc.prems c by (simp_all add: same_config_def)
  ultimately have "\<exists>r. experiments scheds (Suc e) ?g2
      (if shared_data g' = thread_count g' then s + 1 else s) (rs @ [shared_data g']) = Some r"
    by (rule Suc(1))
  then show ?case using lt t by (subst experiments.simps) simp
qed


lemma sweep_partial_aux:
  assumes "sweep scheds g rows = Some r"
  shows "1 \<le> thread_count g \<longrightarrow> max_threads g < INT_MAX \<longrightarrow>
       (\<exists>new. snd r = rows @ new
          \<and> map col_thread_count new = [thread_count g..max_threads g]
          \<and> list_all (\<lambda>row. col_experiments row = total_experiments g) new)
       \<and> max_threads (fst r) = max_threads g
       \<and> total_experiments (fst r) = total_experiments g
       \<and> do_simple_mode (fst r) = do_simple_mode g
       \<and> USE_ATOMICS (fst r) = USE_ATOMICS g
       \<and> (wait_lock g = 0 \<longrightarrow> wait_lock (fst r) = 0)"
proof (rule sweep.raw_induct[where P = "\<lambda>scheds g rows r.
       1 \<le> thread_count g \<longrightarrow> max_threads g < INT_MAX \<longrightarrow>
       (\<exists>new. snd r = rows @ new
          \<and> map col_thread_count new = [thread_count g..max_threads g]
          \<and> list_all (\<lambda>row. col_experiments row = total_experiments g) new)
       \<and> max_threads (fst r) = max_threads g
       \<and> total_experiments (fst r) = total_experiments g
       \<and> do_simple_mode (fst r) = do_simple_mode g
       \<and> USE_ATOMICS (fst r) = USE_ATOMICS g
       \<and> (wait_lock g = 0 \<longrightarrow> wait_lock (fst r) = 0)", OF _ assms])
  fix f :: "(int \<Rightarrow> nat \<Rightarrow> nat \<Rightarrow> nat) \<Rightarrow> globals \<Rightarrow> stats_row list \<Rightarrow> (globals \<times> stats_row list) option"
    and scheds g rows r
  assume IH: "\<And>scheds g rows r. f scheds g rows = Some r \<Longrightarrow>
       1 \<le> thread_count g \<longrightarrow> max_threads g < INT_MAX \<longrightarrow>
       (\<exists>new. snd r = rows @ new
          \<and> map col_thread_count new = [thread_count g..max_threads g]
          \<and> list_all (\<lambda>row. col_experiments row = total_experiments g) new)
       \<and> max_threads (fst r) = max_threads g
       \<and> total_experiments (fst r) = total_experiments g
       \<and> do_simple_mode (fst r) = do_simple_mode g
       \<and> USE_ATOMICS (fst r) = USE_ATOMICS g
       \<and> (wait_lock g = 0 \<longrightarrow> wait_lock (fst r) = 0)"
    and body: "(if thread_count g \<le> max_threads g then
        (case experiments (scheds (thread_count g)) 0 g 0 [] of
           None \<Rightarrow> None
         | Some (g1, successes, results) \<Rightarrow>
             f scheds (g1\<lparr>thread_count := wrap32 (thread_count g1 + 1)\<rparr>)
               (rows @ [print_stats g1 (thread_count g1) successes results]))
      else Some (g, rows)) = Some r"
  show "1 \<le> thread_count g \<longrightarrow> max_threads g < INT_MAX \<longrightarrow>
       (\<exists>new. snd r = rows @ new
          \<and> map col_thread_count new = [thread_count g..max_threads g]
          \<and> list_all (\<lambda>row. col_experiments row = total_experiments g) new)
       \<and> max_threads (fst r) = max_threads g
       \<and> total_experiments (fst r) = total_experiments g
       \<and> do_simple_mode (fst r) = do_simple_mode g
       \<and> USE_ATOMICS (fst r) = USE_ATOMICS g
       \<and> (wait_lock g = 0 \<longrightarrow> wait_lock (fst r) = 0)"
  proof (intro impI)
    assume lo: "1 \<le> thread_count g" and hi: "max_threads g < INT_MAX"
    show "(\<exists>new. snd r = rows @ new
          \<and> map col_thread_count new = [thread_count g..max_threads g]
          \<and> list_all (\<lambda>row. col_experiments row = total_experiments g) new)
       \<and> max_threads (fst r) = max_threads g
       \<and> total_experiments (fst r) = total_experiments g
       \<and> do_simple_mode (fst r) = do_simple_mode g
       \<and> USE_ATOMICS (fst r) = USE_ATOMICS g
       \<and> (wait_lock g = 0 \<longrightarrow> wait_lock (fst r) = 0)"
    proof (cases "thread_count g \<le> max_threads g")
      case False
      then have "r = (g, rows)" using body by simp
      then show ?thesis using False by (simp add: upto.simps)
    next
      case True
      then obtain g1 successes results where
        e: "experiments (scheds (thread_count g)) 0 g 0 [] = Some (g1, successes, results)"
        and r: "f scheds (g1\<lparr>thread_count := wrap32 (thread_count g1 + 1)\<rparr>)
               (rows @ [print_stats g1 (thread_count g1) successes results]) = Some r"
        using body by (auto split: option.splits)
      from experiments_partial[OF e] have c: "same_config g g1"
        and w: "wait_lock g = 0 \<longrightarrow> wait_lock g1 = 0" by auto
      have tc: "thread_count g1 = thread_count g" using c by (simp add: same_config_def)
      have wr: "wrap32 (thread_count g1 + 1) = thread_count g + 1"
        using lo hi True tc by (intro trans[OF wrap32_id]) (auto simp: INT_MAX_def)
      let ?g2 = "g1\<lparr>thread_count := thread_count g + 1\<rparr>"
      let ?row = "print_stats g1 (thread_count g1) successes results"
      from IH[OF r[unfolded wr]] lo hi c obtain new where
        n: "snd r = (rows @ [?row]) @ new"
           "map col_thread_count new = [thread_count g + 1..max_threads g]"
           "list_all (\<lambda>row. col_experiments row = total_experiments g) new"
        and rest: "max_threads (fst r) = max_threads g"
           "total_experiments (fst r) = total_experiments g"
           "do_simple_mode (fst r) = do_simple_mode g"
           "USE_ATOMICS (fst r) = USE_ATOMICS g"
           "wait_lock g1 = 0 \<longrightarrow> wait_lock (fst r) = 0"
        by (auto simp: same_config_def)
      have "snd r = rows @ (?row # new)" using n(1) by simp
      moreover have "map col_thread_count (?row # new) = [thread_count g..max_threads g]"
        using n(2) True tc
        by (simp add: print_stats_def col_thread_count_print_stats upto_rec1[of "thread_count g"])
      moreover have "list_all (\<lambda>row. col_experiments row = total_experiments g) (?row # new)"
        using n(3) c by (simp add: print_stats_def col_experiments_print_stats same_config_def)
      ultimately show ?thesis using rest w by blast
    qed
  qed
qed

lemma sweep_total:
  assumes "\<And>tc e. fair (nat tc) (scheds tc e)"
    and "wait_lock g = 0" "1 \<le> thread_count g" "max_threads g < INT_MAX"
  shows "\<exists>r. sweep scheds g rows = Some r"
  using assms(2-)
proof (induction "nat (max_threads g + 1 - thread_count g)" arbitrary: g rows)
  case 0
  then show ?case by (subst sweep.simps) simp
next
  case (Suc d)
  then have le: "thread_count g \<le> max_threads g" by linarith
  have "\<exists>r. experiments (scheds (thread_count g)) 0 g 0 [] = Some r"
    using assms(1) Suc.prems le by (intro experiments_total) auto
  then obtain g1 successes results where
    e: "experiments (scheds (thread_count g)) 0 g 0 [] = Some (g1, successes, results)"
    by (metis prod_cases3)
  from experiments_partial[OF e] Suc.prems have c: "same_config g g1" and w: "wait_lock g1 = 0"
    by auto
  have tc: "thread_count g1 = thread_count g" using c by (simp add: same_config_def)
  have wr: "wrap32 (thread_count g1 + 1) = thread_count g + 1"
    using Suc.prems le tc by (intro trans[OF wrap32_id]) (auto simp: INT_MAX_def)
  let ?g2 = "g1\<lparr>thread_count := thread_count g + 1\<rparr>"
  have "d = nat (max_threads ?g2 + 1 - thread_count ?g2)"
    using Suc(2) c by (simp add: same_config_def)
  moreover have "wait_lock ?g2 = 0" "1 \<le> thread_count ?g2" "max_threads ?g2 < INT_MAX"
    using w Suc.prems c by (simp_all add: same_config_def)
  ultimately have "\<exists>r. sweep scheds ?g2
      (rows @ [print_stats g1 (thread_count g1) successes results]) = Some r"
    by (rule Suc(1))
  then show ?case using le e wr by (subst sweep.simps) simp
qed

lemma complex_mode_partial:
  assumes "complex_mode scheds g = Some (g', rows)" and "max_threads g < INT_MAX"
  shows "thread_count g' = thread_count g \<and> max_threads g' = max_threads g
       \<and> total_experiments g' = total_experiments g
       \<and> do_simple_mode g' = do_simple_mode g \<and> USE_ATOMICS g' = USE_ATOMICS g
       \<and> (wait_lock g = 0 \<longrightarrow> wait_lock g' = 0)
       \<and> map col_thread_count rows = [1..max_threads g]
       \<and> list_all (\<lambda>row. col_experiments row = total_experiments g) rows"
proof -
  from assms(1) obtain g1 where
    s: "sweep scheds (g\<lparr>thread_count := 1\<rparr>) [] = Some (g1, rows)"
    and g': "g' = g1\<lparr>thread_count := thread_count g\<rparr>"
    by (auto simp: complex_mode_def Let_def split: option.splits)
  from sweep_partial_aux[OF s] assms(2) show ?thesis by (simp add: g')
qed

lemma complex_mode_total:
  assumes "\<And>tc e. fair (nat tc) (scheds tc e)" and "wait_lock g = 0"
    and "max_threads g < INT_MAX"
  shows "\<exists>g' rows. complex_mode scheds g = Some (g', rows)"
proof -
  have "\<exists>r. sweep scheds (g\<lparr>thread_count := 1\<rparr>) [] = Some r"
    using assms by (intro sweep_total) auto
  then show ?thesis by (auto simp: complex_mode_def Let_def)
qed

lemma tally_count: "tally tc xs s = s + int (length (filter (\<lambda>r. r = tc) xs))"
  by (induction xs arbitrary: s) auto

lemma count_differing:
  "int (length xs) - int (length (filter (\<lambda>r. r = tc) xs)) = int (length (filter (\<lambda>r. r \<noteq> tc) xs))"
  using sum_length_filter_compl[of "\<lambda>r. r = tc" xs] by simp

lemma print_stats_config:
  "max_threads g' = max_threads g \<Longrightarrow> total_experiments g' = total_experiments g
     \<Longrightarrow> print_stats g' tc s rs = print_stats g tc s rs"
  by (simp add: print_stats_def print_stats_with_def)

lemma fair_turns: "fair (nat tc) (\<lambda>k. k mod nat tc)"
proof (cases "0 < nat tc")
  case True
  then show ?thesis by (rule fair_round_robin)
next
  case False
  then show ?thesis by (simp add: fair_def)
qed

subsection \<open>The failure count\<close>

text \<open>
  C6. For a batch of \<open>total_experiments\<close> outcomes, the failure count of its row is
  the number of outcomes that differ from the expected value, the thread count. The
  rows \<open>complex_mode\<close> prints are such rows: what its inner loop hands to print_stats is
  the summary of a batch of \<open>total_experiments\<close> outcomes.
\<close>

theorem failures_count:
  "(int (length batch) = total_experiments g
      \<longrightarrow> col_failures (summarize g tc batch) = int (length (filter (\<lambda>r. r \<noteq> tc) batch)))
   \<and> (0 \<le> total_experiments g
        \<and> experiments scheds 0 g 0 [] = Some (g1, successes, results)
      \<longrightarrow> print_stats g1 (thread_count g1) successes results
            = summarize g (thread_count g) results
        \<and> int (length results) = total_experiments g
        \<and> col_failures (print_stats g1 (thread_count g1) successes results)
            = int (length (filter (\<lambda>r. r \<noteq> thread_count g) results)))"
proof (intro conjI impI)
  assume "int (length batch) = total_experiments g"
  then show "col_failures (summarize g tc batch) = int (length (filter (\<lambda>r. r \<noteq> tc) batch))"
    using count_differing[of batch tc]
    by (simp add: summarize_def print_stats_def col_failures_print_stats tally_count)
next
  assume a: "0 \<le> total_experiments g
        \<and> experiments scheds 0 g 0 [] = Some (g1, successes, results)"
  from experiments_partial[of scheds 0 g 0 "[]" g1 successes results] a
  have c: "same_config g g1" and s: "successes = tally (thread_count g) results 0"
    and l: "int (length results) = total_experiments g"
    by auto
  show 1: "print_stats g1 (thread_count g1) successes results = summarize g (thread_count g) results"
    using c s print_stats_config[of g1 g] by (simp add: summarize_def same_config_def)
  show "int (length results) = total_experiments g" using l .
  show "col_failures (print_stats g1 (thread_count g1) successes results)
            = int (length (filter (\<lambda>r. r \<noteq> thread_count g) results))"
    using l c s count_differing[of results "thread_count g"]
    by (simp add: print_stats_def col_failures_print_stats tally_count same_config_def)
qed

text \<open>
  The batch \<open>[3, 3, 3, 2, 3]\<close> at thread count 3 has one failure; two experiments
  with two threads taking turns on the unsynchronized counter record \<open>[1, 1]\<close>, two
  failures.
\<close>

theorem failures_count_witness:
  "int (length [3, 3, 3, 2, 3 :: int]) = total_experiments (initial_globals\<lparr>total_experiments := 5\<rparr>)
   \<and> col_failures (summarize (initial_globals\<lparr>total_experiments := 5\<rparr>) 3 [3, 3, 3, 2, 3]) = 1
   \<and> experiments (\<lambda>e k. k mod 2) 0 (initial_globals\<lparr>total_experiments := 2, thread_count := 2\<rparr>) 0 []
        = Some (initial_globals\<lparr>total_experiments := 2, thread_count := 2\<rparr>, 0, [1, 1])
   \<and> col_failures (print_stats (initial_globals\<lparr>total_experiments := 2, thread_count := 2\<rparr>) 2 0 [1, 1]) = 2"
proof -
  have e: "experiments (\<lambda>e k. k mod 2) 0 (initial_globals\<lparr>total_experiments := 2, thread_count := 2\<rparr>) 0 []
        = Some (initial_globals\<lparr>total_experiments := 2, thread_count := 2\<rparr>, 0, [1, 1])"
    by code_simp
  show ?thesis
    using failures_count[of "[3, 3, 3, 2, 3]" "initial_globals\<lparr>total_experiments := 5\<rparr>" 3]
          failures_count[of _ "initial_globals\<lparr>total_experiments := 2, thread_count := 2\<rparr>" _
             "\<lambda>e k. k mod 2" "initial_globals\<lparr>total_experiments := 2, thread_count := 2\<rparr>" 0 "[1, 1]"]
          e
    by (simp add: initial_globals_def)
qed

subsection \<open>The rows of the sweep\<close>

text \<open>
  C7. With \<open>max_threads = M\<close> below \<open>INT_MAX\<close> and \<open>total_experiments = K\<close>, a
  sweep that returns has printed one row for each thread count from 1 to \<open>M\<close>, in
  ascending order, \<open>M\<close> rows in all (none when \<open>M \<le> 0\<close>), each with the trial count
  \<open>K\<close>. Under fair schedules, from \<open>wait_lock = 0\<close>, the sweep returns.
\<close>

theorem sweep_rows:
  assumes "max_threads g < INT_MAX"
  shows "(\<forall>g' rows. complex_mode scheds g = Some (g', rows) \<longrightarrow>
            map col_thread_count rows = [1..max_threads g]
          \<and> int (length rows) = max 0 (max_threads g)
          \<and> list_all (\<lambda>row. col_experiments row = total_experiments g) rows)
       \<and> ((\<forall>tc e. fair (nat tc) (scheds tc e)) \<and> wait_lock g = 0
            \<longrightarrow> (\<exists>g' rows. complex_mode scheds g = Some (g', rows)))"
proof (intro conjI allI impI)
  fix g' rows assume c: "complex_mode scheds g = Some (g', rows)"
  from complex_mode_partial[OF c assms]
  have m: "map col_thread_count rows = [1..max_threads g]"
    and k: "list_all (\<lambda>row. col_experiments row = total_experiments g) rows" by auto
  show "map col_thread_count rows = [1..max_threads g]" using m .
  show "list_all (\<lambda>row. col_experiments row = total_experiments g) rows" using k .
  have "length rows = length (map col_thread_count rows)" by simp
  also have "\<dots> = length [1..max_threads g]" by (simp only: m)
  finally show "int (length rows) = max 0 (max_threads g)" by simp
next
  assume "(\<forall>tc e. fair (nat tc) (scheds tc e)) \<and> wait_lock g = 0"
  then show "\<exists>g' rows. complex_mode scheds g = Some (g', rows)"
    using assms by (intro complex_mode_total) auto
qed

text \<open>
  \<open>M = 5\<close> and \<open>K = 50\<close>, the threads of every trial taking turns: five rows, for
  the thread counts 1 to 5, each with 50 trials.
\<close>

theorem sweep_rows_witness:
  "max_threads (initial_globals\<lparr>max_threads := 5, total_experiments := 50\<rparr>) < INT_MAX
   \<and> (\<exists>g' rows. complex_mode (\<lambda>tc e k. k mod nat tc)
          (initial_globals\<lparr>max_threads := 5, total_experiments := 50\<rparr>) = Some (g', rows)
        \<and> map col_thread_count rows = [1, 2, 3, 4, 5]
        \<and> length rows = 5
        \<and> map col_experiments rows = [50, 50, 50, 50, 50])"
proof -
  let ?g = "initial_globals\<lparr>max_threads := 5, total_experiments := 50\<rparr>"
  let ?s = "\<lambda>(tc::int) (e::nat) (k::nat). k mod nat tc"
  have h: "max_threads ?g < INT_MAX" by (simp add: INT_MAX_def)
  note t = sweep_rows[OF h, of ?s]
  have "(\<forall>tc e. fair (nat tc) (?s tc e)) \<and> wait_lock ?g = 0"
    using fair_turns by (simp add: initial_globals_def)
  with t obtain g' rows where c: "complex_mode ?s ?g = Some (g', rows)" by blast
  with t have m: "map col_thread_count rows = [1..5]" and l: "length rows = 5"
    and k: "list_all (\<lambda>row. col_experiments row = 50) rows"
    by (auto simp: initial_globals_def)
  have u: "[1..5::int] = [1, 2, 3, 4, 5]" by code_simp
  have "map col_experiments rows = replicate (length rows) 50"
    using k by (induction rows) auto
  then have "map col_experiments rows = [50, 50, 50, 50, 50]"
    by (simp add: l numeral_eq_Suc)
  then show ?thesis using h c m l u by auto
qed

subsection \<open>The global thread_count after the sweep\<close>

text \<open>
  C10. \<open>complex_mode\<close> returns with the global \<open>thread_count\<close> it was called with,
  so that the line \<open>simple_mode\<close> prints after it reports the configured thread count;
  and under fair schedules, from \<open>wait_lock = 0\<close>, \<open>complex_mode\<close> returns.
\<close>

theorem thread_count_restored:
  assumes "max_threads g < INT_MAX"
  shows "(\<forall>g' rows. complex_mode scheds g = Some (g', rows) \<longrightarrow> thread_count g' = thread_count g)
       \<and> (\<forall>g2 rows line. do_complex_mode g \<and> do_simple_mode g
              \<and> main scheds sched g = Some (g2, rows, line)
            \<longrightarrow> (\<exists>v. line = Some (thread_count g, v)))
       \<and> ((\<forall>tc e. fair (nat tc) (scheds tc e)) \<and> wait_lock g = 0
            \<longrightarrow> (\<exists>g' rows. complex_mode scheds g = Some (g', rows)))"
proof (intro conjI allI impI)
  fix g' rows assume "complex_mode scheds g = Some (g', rows)"
  from complex_mode_partial[OF this assms] show "thread_count g' = thread_count g" by simp
next
  fix g2 rows line
  assume a: "do_complex_mode g \<and> do_simple_mode g
              \<and> main scheds sched g = Some (g2, rows, line)"
  then obtain g1 rows1 where c: "complex_mode scheds g = Some (g1, rows1)"
    by (auto simp: main_def split: option.splits if_splits)
  from complex_mode_partial[OF c assms] a
  have tc: "thread_count g1 = thread_count g" and sm: "do_simple_mode g1" by auto
  from a c sm obtain g3 l where s: "simple_mode sched g1 = Some (g3, l)" and line: "line = Some l"
    by (auto simp: main_def split: option.splits)
  from s obtain g4 where
    t: "create_threads_and_launch_worker sched (thread_count g1) g1 = Some g4"
    and l: "l = (thread_count g4, shared_data g4)"
    by (auto simp: simple_mode_def split: option.splits)
  from trial_config[OF t] have "thread_count g4 = thread_count g1" by (simp add: same_config_def)
  then show "\<exists>v. line = Some (thread_count g, v)" using line l tc by simp
next
  assume "(\<forall>tc e. fair (nat tc) (scheds tc e)) \<and> wait_lock g = 0"
  then show "\<exists>g' rows. complex_mode scheds g = Some (g', rows)"
    using assms by (intro complex_mode_total) auto
qed

text \<open>
  The shipped \<open>thread_count = 8\<close> with a sweep up to 3: the sweep returns with
  \<open>thread_count = 8\<close>, and \<open>simple_mode\<close> then runs eight threads and prints
  \<open>(8, 1)\<close>.
\<close>

theorem thread_count_restored_witness:
  "max_threads (initial_globals\<lparr>max_threads := 3, total_experiments := 2\<rparr>) < INT_MAX
   \<and> (\<exists>g' rows. complex_mode (\<lambda>tc e k. k mod nat tc)
          (initial_globals\<lparr>max_threads := 3, total_experiments := 2\<rparr>) = Some (g', rows)
        \<and> thread_count g' = 8)
   \<and> map_option (\<lambda>(g2, rows, line). line)
        (main (\<lambda>tc e k. k mod nat tc) (\<lambda>k. k mod 8)
          (initial_globals\<lparr>max_threads := 3, total_experiments := 2\<rparr>)) = Some (Some (8, 1))"
proof -
  let ?g = "initial_globals\<lparr>max_threads := 3, total_experiments := 2\<rparr>"
  let ?s = "\<lambda>(tc::int) (e::nat) (k::nat). k mod nat tc"
  have h: "max_threads ?g < INT_MAX" by (simp add: INT_MAX_def)
  note t = thread_count_restored[OF h, of ?s "\<lambda>k. k mod 8"]
  have "(\<forall>tc e. fair (nat tc) (?s tc e)) \<and> wait_lock ?g = 0"
    using fair_turns by (simp add: initial_globals_def)
  with t obtain g' rows where c: "complex_mode ?s ?g = Some (g', rows)" by blast
  with t have r: "thread_count g' = 8" by (auto simp: initial_globals_def)
  have m: "map_option (\<lambda>(g2, rows, line). line) (main ?s (\<lambda>k. k mod 8) ?g) = Some (Some (8, 1))"
    by code_simp
  show ?thesis using h c r m by blast
qed

subsection \<open>Rounding\<close>

text \<open>
  \<open>expo\<close> is the binary exponent; a number that is a multiple of its unit in the last
  place is not rounded, so integers up to \<open>2\<^sup>p\<close> are exact; rounding twice is rounding
  once; and \<open>sqrt_round\<close> is the square root rounded once.
\<close>

lemma expo_bounds:
  assumes "x \<noteq> 0"
  shows "2 powi (expo x) \<le> \<bar>x\<bar> \<and> \<bar>x\<bar> < 2 powi (expo x + 1)"
proof (cases "1 \<le> \<bar>x\<bar>")
  case True
  define n where "n = \<lfloor>\<bar>x\<bar>\<rfloor>"
  have n: "0 < n" using True by (simp add: n_def)
  have e: "expo x = bitlen n - 1" using True by (simp add: expo_def n_def)
  from bitlen_bounds[OF n] have b: "2 ^ nat (bitlen n - 1) \<le> n" "n < 2 ^ nat (bitlen n)" by auto
  have bl: "0 < bitlen n" using n bitlen_nonneg[of n] bitlen_eq_zero_iff[of n] by linarith
  have "real_of_int (2 ^ nat (bitlen n - 1)) \<le> real_of_int n" using b(1) by linarith
  also have "\<dots> \<le> \<bar>x\<bar>" by (simp add: n_def)
  finally have lo: "2 powi (bitlen n - 1) \<le> \<bar>x\<bar>" using bl by (simp add: power_int_def)
  have "n + 1 \<le> 2 ^ nat (bitlen n)" using b(2) by simp
  then have "real_of_int (n + 1) \<le> real_of_int (2 ^ nat (bitlen n))" by linarith
  moreover have "\<bar>x\<bar> < real_of_int (n + 1)" by (simp add: n_def)
  ultimately have hi: "\<bar>x\<bar> < 2 powi (bitlen n)" using bl by (simp add: power_int_def)
  show ?thesis using lo hi by (simp add: e)
next
  case False
  define z where "z = 1 / \<bar>x\<bar>"
  have x: "0 < \<bar>x\<bar>" "\<bar>x\<bar> < 1" using False assms by auto
  have z1: "1 < z" using x by (simp add: z_def)
  define n where "n = \<lceil>z\<rceil> - 1"
  have n: "0 < n" using z1 by (simp add: n_def)
  have e: "expo x = - bitlen n" using False by (simp add: expo_def n_def z_def)
  from bitlen_bounds[OF n] have b: "2 ^ nat (bitlen n - 1) \<le> n" "n < 2 ^ nat (bitlen n)" by auto
  have bl: "0 < bitlen n" using n bitlen_nonneg[of n] bitlen_eq_zero_iff[of n] by linarith
  have zn: "real_of_int n < z" "z \<le> real_of_int n + 1" unfolding n_def by linarith+
  have "real_of_int (2 ^ nat (bitlen n - 1)) \<le> real_of_int n" using b(1) by linarith
  moreover have "(2::real) ^ nat (bitlen n - 1) = real_of_int (2 ^ nat (bitlen n - 1))" by simp
  ultimately have lo: "2 ^ nat (bitlen n - 1) < z" using zn by linarith
  have "n + 1 \<le> 2 ^ nat (bitlen n)" using b(2) by simp
  then have "real_of_int (n + 1) \<le> real_of_int (2 ^ nat (bitlen n))" by linarith
  moreover have "(2::real) ^ nat (bitlen n) = real_of_int (2 ^ nat (bitlen n))" by simp
  ultimately have hi: "z \<le> 2 ^ nat (bitlen n)" using zn by linarith
  have p1: "2 powi (- bitlen n) = 1 / (2::real) ^ nat (bitlen n)"
    using bl by (simp add: power_int_def field_simps)
  have p2: "2 powi (1 - bitlen n) = 1 / (2::real) ^ nat (bitlen n - 1)"
  proof -
    have "1 - bitlen n = - (bitlen n - 1)" by simp
    then show ?thesis using bl by (simp only: power_int_minus) (simp add: power_int_def field_simps)
  qed
  have "1 / (2::real) ^ nat (bitlen n) \<le> \<bar>x\<bar>"
    using hi x by (simp add: z_def field_simps)
  moreover have "\<bar>x\<bar> < 1 / (2::real) ^ nat (bitlen n - 1)"
    using lo x by (simp add: z_def field_simps)
  ultimately show ?thesis by (simp add: e p1 p2)
qed

lemma powi_less_imp_less:
  assumes "2 powi a < (2::real) powi b"
  shows "a < b"
  using power_int_increasing[of b a "2::real"] assms by (cases "a < b") auto

lemma expo_eqI:
  assumes "2 powi e \<le> \<bar>x\<bar>" "\<bar>x\<bar> < 2 powi (e + 1)"
  shows "expo x = e"
proof -
  have "(0::real) < 2 powi e" by simp
  with assms(1) have "0 < \<bar>x\<bar>" by linarith
  then have x: "x \<noteq> 0" by simp
  note b = expo_bounds[OF x]
  have "2 powi e < (2::real) powi (expo x + 1)" using assms(1) b by linarith
  then have 1: "e < expo x + 1" by (rule powi_less_imp_less)
  have "2 powi (expo x) < (2::real) powi (e + 1)" using assms(2) b by linarith
  then have 2: "expo x < e + 1" by (rule powi_less_imp_less)
  show ?thesis using 1 2 by simp
qed

lemma rnd_even_of_int [simp]: "rnd_even (of_int m) = m"
  by (simp add: rnd_even_def)

lemma rnd_even_bounds: "of_int (rnd_even x) \<le> x + 1/2 \<and> x - 1/2 \<le> of_int (rnd_even x)"
  unfolding rnd_even_def Let_def by (auto split: if_splits) linarith+

lemma fl_round_zero [simp]: "fl_round p emin 0 = 0"
  by (simp add: fl_round_def)

lemma fl_round_eval:
  assumes "2 powi e \<le> \<bar>x\<bar>" "\<bar>x\<bar> < 2 powi (e + 1)" "emin \<le> e"
    and "u = 2 powi (e - int p + 1)" "rnd_even (x / u) = m" "y = of_int m * u"
  shows "fl_round p emin x = y"
proof -
  have "(0::real) < 2 powi e" by simp
  with assms(1) have "0 < \<bar>x\<bar>" by linarith
  then have x: "x \<noteq> 0" by simp
  show ?thesis using assms x expo_eqI[OF assms(1,2)] by (simp add: fl_round_def Let_def max_def)
qed

text \<open>A number that is a whole multiple of its unit in the last place is not rounded.\<close>

lemma fl_round_exact:
  assumes "x / 2 powi (max (expo x) emin - int p + 1) = of_int m"
  shows "fl_round p emin x = x"
proof (cases "x = 0")
  case True
  then show ?thesis by simp
next
  case False
  let ?u = "(2::real) powi (max (expo x) emin - int p + 1)"
  have "?u \<noteq> 0" by simp
  then have "x = of_int m * ?u" using assms by (simp add: field_simps)
  then show ?thesis using False assms by (simp add: fl_round_def Let_def)
qed

lemma fl_round_int:
  assumes "\<bar>k\<bar> \<le> 2 ^ p" "emin \<le> 0" "0 < p"
  shows "fl_round p emin (of_int k) = of_int k"
proof (cases "k = 0")
  case True
  then show ?thesis by simp
next
  case False
  let ?x = "real_of_int k"
  have x: "?x \<noteq> 0" using False by simp
  note b = expo_bounds[OF x]
  have one: "1 \<le> \<bar>?x\<bar>" using False by (simp add: of_int_abs[symmetric] del: of_int_abs)
  have "(2::real) powi 0 < 2 powi (expo ?x + 1)" using b one by simp
  then have e0: "0 \<le> expo ?x" using powi_less_imp_less[of 0 "expo ?x + 1"] by simp
  have kp: "\<bar>?x\<bar> \<le> 2 ^ p"
    using assms(1) by (metis of_int_abs of_int_le_iff of_int_numeral of_int_power)
  have "(2::real) powi (expo ?x) < 2 powi (int p + 1)"
  proof -
    have "(2::real) powi (expo ?x) \<le> 2 ^ p" using b kp by linarith
    also have "\<dots> < 2 powi (int p + 1)" by (simp add: power_int_add)
    finally show ?thesis .
  qed
  then have ep: "expo ?x \<le> int p" using powi_less_imp_less[of "expo ?x" "int p + 1"] by simp
  have mx: "max (expo ?x) emin = expo ?x" using e0 assms(2) by simp
  show ?thesis
  proof (cases "expo ?x = int p")
    case True
    then have "2 ^ p \<le> \<bar>?x\<bar>" using b by simp
    then have "\<bar>?x\<bar> = 2 ^ p" using kp by simp
    then have "\<bar>k\<bar> = 2 ^ p"
      by (metis of_int_abs of_int_eq_iff of_int_numeral of_int_power)
    then have k: "k = 2 ^ p \<or> k = - (2 ^ p)" by linarith
    obtain q where q: "p = Suc q" using assms(3) by (cases p) auto
    have "2 dvd k" using k q by auto
    then have "real_of_int (k div 2) = ?x / 2" using real_of_int_div[of 2 k] by simp
    moreover have "max (expo ?x) emin - int p + 1 = 1" using mx True by simp
    ultimately have "?x / 2 powi (max (expo ?x) emin - int p + 1) = of_int (k div 2)"
      by simp
    then show ?thesis by (rule fl_round_exact)
  next
    case ne: False
    then have lt: "expo ?x < int p" using ep by simp
    define d where "d = nat (int p - 1 - expo ?x)"
    have "max (expo ?x) emin - int p + 1 = - int d" using lt by (simp add: mx d_def)
    then have "(2::real) powi (max (expo ?x) emin - int p + 1) = 1 / 2 ^ d"
      by (simp only: power_int_minus power_int_of_nat) (simp add: field_simps)
    then have "?x / 2 powi (max (expo ?x) emin - int p + 1) = of_int (k * 2 ^ d)"
      by simp
    then show ?thesis by (rule fl_round_exact)
  qed
qed

lemma to_float_int: "\<bar>k\<bar> \<le> 16777216 \<Longrightarrow> to_float (of_int k) = of_int k"
  unfolding to_float_def by (rule fl_round_int) auto

lemma to_double_int: "\<bar>k\<bar> \<le> 9007199254740992 \<Longrightarrow> to_double (of_int k) = of_int k"
  unfolding to_double_def by (rule fl_round_int) auto

lemma to_float_zero [simp]: "to_float 0 = 0"
  by (simp add: to_float_def)

lemma to_double_zero [simp]: "to_double 0 = 0"
  by (simp add: to_double_def)

lemma to_float_one [simp]: "to_float 1 = 1"
  using to_float_int[of 1] by simp

lemma to_double_one [simp]: "to_double 1 = 1"
  using to_double_int[of 1] by simp

lemma to_float_numeral: "numeral n \<le> (16777216::int) \<Longrightarrow> to_float (numeral n) = numeral n"
  using to_float_int[of "numeral n"] by simp

lemma to_double_numeral:
  "numeral n \<le> (9007199254740992::int) \<Longrightarrow> to_double (numeral n) = numeral n"
  using to_double_int[of "numeral n"] by simp

lemma sqrt_round_zero [simp]: "sqrt_round p 0 = 0"
  by (simp add: sqrt_round_def)

lemma fl_round_idem:
  assumes "0 < p"
  shows "fl_round p emin (fl_round p emin x) = fl_round p emin x"
proof (cases "fl_round p emin x = 0")
  case True
  then show ?thesis by simp
next
  case False
  then have x: "x \<noteq> 0" by auto
  define e where "e = max (expo x) emin"
  define u where "u = (2::real) powi (e - int p + 1)"
  define m where "m = rnd_even (x / u)"
  define y where "y = of_int m * u"
  have y: "fl_round p emin x = y" using x by (simp add: fl_round_def Let_def e_def u_def m_def y_def)
  have u0: "0 < u" by (simp add: u_def)
  have y0: "y \<noteq> 0" using False y by simp
  then have m0: "m \<noteq> 0" by (auto simp: y_def)
  have emin: "emin \<le> e" "expo x \<le> e" by (simp_all add: e_def)
  have pw: "2 powi (e + 1) = 2 ^ p * u"
  proof -
    have "(2::real) powi (int p + (e - int p + 1)) = 2 powi (int p) * 2 powi (e - int p + 1)"
      by (rule power_int_add) simp
    moreover have "int p + (e - int p + 1) = e + 1" by simp
    ultimately show ?thesis by (simp add: u_def)
  qed
  have "\<bar>x\<bar> < 2 powi (expo x + 1)" using expo_bounds[OF x] by simp
  also have "\<dots> \<le> 2 powi (e + 1)" using emin by (intro power_int_increasing) auto
  finally have "\<bar>x\<bar> < 2 ^ p * u" using pw by simp
  then have z: "\<bar>x / u\<bar> < 2 ^ p" using u0 by (simp add: field_simps abs_mult)
  have "real_of_int m \<le> x / u + 1/2" "x / u - 1/2 \<le> real_of_int m"
    using rnd_even_bounds[of "x / u"] by (simp_all add: m_def)
  moreover have "x / u < 2 ^ p" "- (2 ^ p) < x / u" using z by linarith+
  ultimately have "real_of_int \<bar>m\<bar> < 2 ^ p + 1" by (simp add: abs_if)
  then have "real_of_int \<bar>m\<bar> < real_of_int (2 ^ p + 1)" by simp
  then have mp: "\<bar>m\<bar> \<le> 2 ^ p" by linarith
  have ay: "\<bar>y\<bar> = real_of_int \<bar>m\<bar> * u" using u0 by (simp add: y_def abs_mult)
  show ?thesis
  proof (cases "\<bar>m\<bar> = 2 ^ p")
    case True
    then have "\<bar>y\<bar> = 2 powi (e + 1)" using ay pw by simp
    then have "expo y = e + 1" by (intro expo_eqI) (simp_all add: power_int_add)
    then have e': "max (expo y) emin - int p + 1 = (e - int p + 1) + 1" using emin by simp
    have "(2::real) powi ((e - int p + 1) + 1) = 2 powi (e - int p + 1) * 2"
      by (rule power_int_add_1) simp
    then have u': "2 powi (max (expo y) emin - int p + 1) = 2 * u"
      by (simp only: e' u_def)
    obtain q where q: "p = Suc q" using assms by (cases p) auto
    have "2 dvd \<bar>m\<bar>" using True q by simp
    then have "2 dvd m" by simp
    then have "real_of_int (m div 2) = real_of_int m / 2" using real_of_int_div[of 2 m] by simp
    then have "y / (2 * u) = of_int (m div 2)"
      using u0 by (simp add: y_def)
    then have "y / 2 powi (max (expo y) emin - int p + 1) = of_int (m div 2)"
      by (simp only: u')
    then have "fl_round p emin y = y" by (rule fl_round_exact)
    then show ?thesis by (simp add: y)
  next
    case ne: False
    then have "\<bar>m\<bar> + 1 \<le> 2 ^ p" using mp by simp
    then have "real_of_int (\<bar>m\<bar> + 1) \<le> real_of_int (2 ^ p)" by linarith
    then have "real_of_int \<bar>m\<bar> < 2 ^ p" by simp
    then have "\<bar>y\<bar> < 2 powi (e + 1)" using ay pw u0 by simp
    moreover have "2 powi (expo y) \<le> \<bar>y\<bar>" using expo_bounds[OF y0] by simp
    ultimately have "2 powi (expo y) < (2::real) powi (e + 1)" by linarith
    then have "expo y < e + 1" by (rule powi_less_imp_less)
    then have le: "max (expo y) emin \<le> e" using emin by simp
    define d where "d = nat (e - max (expo y) emin)"
    have eq: "max (expo y) emin - int p + 1 = (e - int p + 1) + (- int d)"
      using le by (simp add: d_def)
    have "(2::real) powi ((e - int p + 1) + (- int d)) = 2 powi (e - int p + 1) * 2 powi (- int d)"
      by (rule power_int_add) simp
    moreover have "(2::real) powi (- int d) = 1 / 2 ^ d"
      by (simp add: power_int_minus inverse_eq_divide)
    ultimately have u'': "(2::real) powi (max (expo y) emin - int p + 1) = u * (1 / 2 ^ d)"
      by (simp only: eq u_def)
    have "y / (u * (1 / 2 ^ d)) = of_int (m * 2 ^ d)"
      using u0 by (simp add: y_def)
    then have "y / 2 powi (max (expo y) emin - int p + 1) = of_int (m * 2 ^ d)"
      by (simp only: u'')
    then have "fl_round p emin y = y" by (rule fl_round_exact)
    then show ?thesis by (simp add: y)
  qed
qed

lemma to_float_idem [simp]: "to_float (to_float x) = to_float x"
  unfolding to_float_def by (rule fl_round_idem) simp

lemma isqrt_correct:
  "0 \<le> n \<Longrightarrow> 0 \<le> isqrt n \<and> isqrt n * isqrt n \<le> n \<and> n < (isqrt n + 1) * (isqrt n + 1)"
proof (induction n rule: isqrt.induct)
  case (1 n)
  show ?case
  proof (cases "n < 1")
    case True
    then have "n = 0" using 1(2) by simp
    then show ?thesis by (simp add: isqrt.simps)
  next
    case False
    define r where "r = isqrt (n div 4)"
    have "0 \<le> n div 4" using 1(2) by simp
    from 1(1)[OF False this] have r: "0 \<le> r" "r * r \<le> n div 4" "n div 4 < (r + 1) * (r + 1)"
      by (simp_all add: r_def)
    have n4: "4 * (n div 4) \<le> n" "n < 4 * (n div 4) + 4" by presburger+
    have lo: "(2 * r) * (2 * r) \<le> n" using r(2) n4(1) by (simp add: algebra_simps)
    have "n div 4 + 1 \<le> (r + 1) * (r + 1)" using r(3) by simp
    then have hi: "n < (2 * r + 2) * (2 * r + 2)" using n4(2) by (simp add: algebra_simps)
    have i: "isqrt n = isqrt_step n (2 * r)" using False by (subst isqrt.simps) (simp add: r_def)
    show ?thesis
    proof (cases "(2 * r + 1) * (2 * r + 1) \<le> n")
      case True
      then have "isqrt n = 2 * r + 1" by (simp add: i isqrt_step_def)
      then show ?thesis using True hi r(1) by (simp add: algebra_simps)
    next
      case False
      then have "isqrt n = 2 * r" by (simp add: i isqrt_step_def)
      then show ?thesis using False lo r(1) by (simp add: algebra_simps)
    qed
  qed
qed

lemma rnd_even_sqrt:
  assumes "0 < y"
  defines "f \<equiv> isqrt \<lfloor>y\<rfloor>"
  defines "h \<equiv> (real_of_int f + 1/2) * (real_of_int f + 1/2)"
  shows "rnd_even (sqrt y)
           = (if y < h then f else if h < y then f + 1 else if even f then f else f + 1)"
proof -
  have "0 \<le> \<lfloor>y\<rfloor>" using assms(1) by simp
  from isqrt_correct[OF this] have f: "0 \<le> f" "f * f \<le> \<lfloor>y\<rfloor>" "\<lfloor>y\<rfloor> < (f + 1) * (f + 1)"
    by (simp_all add: f_def)
  have "real_of_int (f * f) \<le> real_of_int \<lfloor>y\<rfloor>" using f(2) by linarith
  then have lo: "(real_of_int f)\<^sup>2 \<le> y" by (simp add: power2_eq_square) linarith
  have "\<lfloor>y\<rfloor> + 1 \<le> (f + 1) * (f + 1)" using f(3) by simp
  then have "real_of_int (\<lfloor>y\<rfloor> + 1) \<le> real_of_int ((f + 1) * (f + 1))" by linarith
  then have hi: "y < (real_of_int f + 1)\<^sup>2" by (simp add: power2_eq_square) linarith
  have s1: "real_of_int f \<le> sqrt y" using lo by (rule real_le_rsqrt)
  have s2: "sqrt y < real_of_int f + 1" using hi f(1) by (intro real_less_lsqrt) auto
  have fl: "\<lfloor>sqrt y\<rfloor> = f" using s1 s2 by linarith
  have hpos: "0 \<le> real_of_int f + 1/2" using f(1) by simp
  have h2: "h = (real_of_int f + 1/2)\<^sup>2" by (simp add: h_def power2_eq_square)
  have lt: "sqrt y < real_of_int f + 1/2 \<longleftrightarrow> y < h"
  proof
    assume "sqrt y < real_of_int f + 1/2"
    then have "(sqrt y)\<^sup>2 < (real_of_int f + 1/2)\<^sup>2"
      using assms(1) by (intro power_strict_mono) auto
    then show "y < h" using assms(1) by (simp add: h2)
  next
    assume "y < h"
    then show "sqrt y < real_of_int f + 1/2" using hpos by (intro real_less_lsqrt) (auto simp: h2)
  qed
  have gt: "real_of_int f + 1/2 < sqrt y \<longleftrightarrow> h < y"
  proof
    assume "real_of_int f + 1/2 < sqrt y"
    then have "(real_of_int f + 1/2)\<^sup>2 < (sqrt y)\<^sup>2"
      using hpos by (intro power_strict_mono) auto
    then show "h < y" using assms(1) by (simp add: h2)
  next
    assume "h < y"
    then show "real_of_int f + 1/2 < sqrt y" by (intro real_less_rsqrt) (auto simp: h2)
  qed
  have "sqrt y - real_of_int f < 1/2 \<longleftrightarrow> y < h" using lt by auto
  moreover have "1/2 < sqrt y - real_of_int f \<longleftrightarrow> h < y" using gt by auto
  ultimately show ?thesis by (simp add: rnd_even_def fl Let_def)
qed

lemma expo_sqrt:
  assumes "0 < x"
  shows "expo (sqrt x) = expo x div 2"
proof (rule expo_eqI)
  let ?e = "expo x" and ?q = "expo x div 2"
  have x: "x \<noteq> 0" using assms by simp
  have b: "2 powi ?e \<le> x" "x < 2 powi (?e + 1)" using expo_bounds[OF x] assms by auto
  have sq: "(2 powi k)\<^sup>2 = (2::real) powi (2 * k)" for k
    by (simp add: power2_eq_square power_int_add[symmetric])
  have "(2 powi ?q)\<^sup>2 \<le> (2::real) powi ?e"
    unfolding sq by (intro power_int_increasing) auto
  then have "(2 powi ?q)\<^sup>2 \<le> x" using b(1) by linarith
  then have "2 powi ?q \<le> sqrt x" by (rule real_le_rsqrt)
  then show "2 powi ?q \<le> \<bar>sqrt x\<bar>" using assms by simp
  have "(2::real) powi (?e + 1) \<le> (2 powi (?q + 1))\<^sup>2"
    unfolding sq by (intro power_int_increasing) auto
  then have "x < (2 powi (?q + 1))\<^sup>2" using b(2) by linarith
  then have "sqrt x < 2 powi (?q + 1)" by (intro real_less_lsqrt) auto
  then show "\<bar>sqrt x\<bar> < 2 powi (?q + 1)" using assms by simp
qed

text \<open>\<open>sqrt_round\<close> is the square root, rounded once.\<close>

lemma sqrt_round_correct:
  assumes "0 < x" "emin \<le> expo x div 2"
  shows "sqrt_round p x = fl_round p emin (sqrt x)"
proof -
  define u where "u = (2::real) powi (expo x div 2 - int p + 1)"
  have u0: "0 < u" by (simp add: u_def)
  have y0: "0 < x / (u * u)" using assms(1) u0 by simp
  have "sqrt (x / (u * u)) = sqrt x / u" using u0 by (simp add: real_sqrt_divide real_sqrt_mult)
  then have r: "rnd_even (sqrt x / u) = rnd_even (sqrt (x / (u * u)))" by simp
  have s0: "sqrt x \<noteq> 0" using assms(1) by simp
  have e: "max (expo (sqrt x)) emin = expo x div 2" using assms by (simp add: expo_sqrt)
  show ?thesis
    using assms(1) s0
    by (simp add: fl_round_def sqrt_round_def Let_def e r rnd_even_sqrt[OF y0] u_def[symmetric])
qed

text \<open>
  Rounding a given number: with its exponent \<open>e\<close> and the integer \<open>m\<close> nearest to its
  quotient by the unit in the last place at hand, the rest is arithmetic on numerals.
\<close>

lemma to_float_eval:
  assumes "2 powi e \<le> \<bar>x\<bar>" "\<bar>x\<bar> < 2 powi (e + 1)" "- 126 \<le> e"
    and "u = 2 powi (e - 23)" "rnd_even (x / u) = m" "y = of_int m * u"
  shows "to_float x = y"
  unfolding to_float_def using assms by (intro fl_round_eval[where e = e and u = u and m = m]) auto

lemma to_double_eval:
  assumes "2 powi e \<le> \<bar>x\<bar>" "\<bar>x\<bar> < 2 powi (e + 1)" "- 1022 \<le> e"
    and "u = 2 powi (e - 52)" "rnd_even (x / u) = m" "y = of_int m * u"
  shows "to_double x = y"
  unfolding to_double_def using assms by (intro fl_round_eval[where e = e and u = u and m = m]) auto

lemma sqrt_round_down:
  assumes "2 powi e \<le> x" "x < 2 powi (e + 1)" "u = 2 powi (e div 2 - int p + 1)"
    and "isqrt \<lfloor>x / (u * u)\<rfloor> = f"
    and "x / (u * u) < (of_int f + 1/2) * (of_int f + 1/2)" "y = of_int f * u"
  shows "sqrt_round p x = y"
proof -
  have "(0::real) < 2 powi e" by simp
  with assms(1) have x: "0 < x" by linarith
  then have "expo x = e" using assms(1,2) by (intro expo_eqI) auto
  then show ?thesis using x assms(3-) by (simp add: sqrt_round_def Let_def)
qed

lemma sqrt_round_up:
  assumes "2 powi e \<le> x" "x < 2 powi (e + 1)" "u = 2 powi (e div 2 - int p + 1)"
    and "isqrt \<lfloor>x / (u * u)\<rfloor> = f"
    and "(of_int f + 1/2) * (of_int f + 1/2) < x / (u * u)" "y = of_int (f + 1) * u"
  shows "sqrt_round p x = y"
proof -
  have "(0::real) < 2 powi e" by simp
  with assms(1) have x: "0 < x" by linarith
  then have "expo x = e" using assms(1,2) by (intro expo_eqI) auto
  then show ?thesis using x assms(3-) by (simp add: sqrt_round_def Let_def)
qed

subsection \<open>The floating-point columns of a row\<close>

lemma first_pass_sum:
  "fst (first_pass fp xs (Finite s, mx, mn)) = Finite (sum_loop fp xs s)"
  by (induction xs arbitrary: s mx mn) (auto simp: int_to_float_def)

lemma second_pass_sum1:
  "second_pass fp (Finite a) xs (Finite s1) = Finite (sum1_loop fp a xs s1)"
  by (induction xs arbitrary: s1) (auto simp: int_to_float_def)

lemma print_stats_floats:
  assumes "rnd32 fp (real (length xs)) \<noteq> 0"
  shows "col_average (print_stats_with fp g tc s xs) = Finite (float_mean fp xs)"
    and "col_variance (print_stats_with fp g tc s xs) = Finite (float_variance fp xs)"
    and "col_std_dev (print_stats_with fp g tc s xs)
           = (if float_variance fp xs < 0 then NaN
              else Finite (rnd32 fp (sqrt64 fp (float_variance fp xs))))"
proof -
  define min0 where
    "min0 = (if max_threads g < INT_MAX then max_threads g + 1 else wrap32 (max_threads g + 1))"
  note unfold = print_stats_with_def[of fp g tc s xs, folded min0_def]
  show "col_average (print_stats_with fp g tc s xs) = Finite (float_mean fp xs)"
    and "col_variance (print_stats_with fp g tc s xs) = Finite (float_variance fp xs)"
    and "col_std_dev (print_stats_with fp g tc s xs)
           = (if float_variance fp xs < 0 then NaN
              else Finite (rnd32 fp (sqrt64 fp (float_variance fp xs))))"
    using assms first_pass_sum[of fp xs 0 0 min0]
    by (auto simp: unfold Let_def int_to_float_def float_mean_def float_variance_def
          second_pass_sum1 split: prod.splits)
qed

lemma sum_loop_exact: "sum_loop exact xs s = s + (\<Sum>x\<leftarrow>xs. real_of_int x)"
  by (induction xs arbitrary: s) (auto simp: exact_def)

lemma sum1_loop_exact: "sum1_loop exact a xs s1 = s1 + (\<Sum>x\<leftarrow>xs. (real_of_int x - a)\<^sup>2)"
  by (induction xs arbitrary: s1) (auto simp: exact_def power2_eq_square)

lemma float_mean_exact: "float_mean exact xs = spec_mean xs"
  by (simp add: float_mean_def spec_mean_def sum_loop_exact) (simp add: exact_def)

lemma float_variance_exact: "float_variance exact xs = spec_variance xs"
  by (simp add: float_variance_def spec_variance_def sum1_loop_exact float_mean_exact)
     (simp add: exact_def)

lemma spec_variance_nonneg: "0 \<le> spec_variance xs"
  unfolding spec_variance_def by (intro divide_nonneg_nonneg sum_list_nonneg) auto

lemma sum_loop_ints:
  assumes "\<forall>r\<in>set xs. 0 \<le> r" "0 \<le> s" "s + sum_list xs \<le> 16777216"
  shows "sum_loop ieee xs (of_int s) = of_int (s + sum_list xs)"
  using assms
proof (induction xs arbitrary: s)
  case Nil
  then show ?case by simp
next
  case (Cons r rs)
  have nn: "0 \<le> sum_list rs" using Cons.prems(1) by (intro sum_list_nonneg) auto
  have r: "0 \<le> r" "r \<le> 16777216" "s + r \<le> 16777216" using Cons.prems nn by auto
  have 1: "to_float (of_int r) = of_int r" using r by (intro to_float_int) auto
  have 2: "to_float (of_int (s + r)) = of_int (s + r)" using r Cons.prems(2) by (intro to_float_int) auto
  have "sum_loop ieee rs (of_int (s + r)) = of_int ((s + r) + sum_list rs)"
    using Cons.prems r by (intro Cons.IH) auto
  then show ?case using 1 2 by (simp add: ieee_def add.assoc)
qed

lemma sum_loop_replicate:
  assumes "int (i + j) * \<bar>v\<bar> \<le> 16777216"
  shows "sum_loop ieee (replicate j v) (of_int (int i * v)) = of_int (int (i + j) * v)"
  using assms
proof (induction j arbitrary: i)
  case 0
  then show ?case by simp
next
  case (Suc j)
  have a: "\<bar>v\<bar> \<le> int (i + Suc j) * \<bar>v\<bar>" using mult_right_mono[of 1 "int (i + Suc j)" "\<bar>v\<bar>"] by simp
  have b: "int (Suc i) * \<bar>v\<bar> \<le> int (i + Suc j) * \<bar>v\<bar>" by (intro mult_right_mono) auto
  have 1: "to_float (of_int v) = of_int v" using a Suc.prems by (intro to_float_int) linarith
  have "\<bar>int (Suc i) * v\<bar> \<le> 16777216" using b Suc.prems by (simp add: abs_mult)
  then have 2: "to_float (of_int (int (Suc i) * v)) = of_int (int (Suc i) * v)"
    by (rule to_float_int)
  have "sum_loop ieee (replicate j v) (of_int (int (Suc i) * v)) = of_int (int (Suc i + j) * v)"
    using Suc.prems by (intro Suc.IH) simp
  moreover have "real_of_int (int i * v) + real_of_int v = real_of_int (int (Suc i) * v)"
    by (simp add: algebra_simps)
  ultimately show ?case using 1 2 by (simp add: ieee_def del: of_int_mult of_int_add of_nat_Suc)
qed

lemma sum1_loop_equal:
  assumes "a = to_float (of_int v)"
  shows "sum1_loop ieee a (replicate j v) 0 = 0"
  by (induction j) (simp_all add: ieee_def assms)

lemma ieee_sel [simp]:
  "rnd32 ieee = to_float" "rnd64 ieee = to_double" "sqrt64 ieee = sqrt_round 53"
  by (simp_all add: ieee_def)

lemma ieee_count: "0 < n \<Longrightarrow> n \<le> 16777216 \<Longrightarrow> to_float (real n) = real n"
  using to_float_int[of "int n"] by simp

lemma col_average_print_stats:
  "col_average (print_stats_with fp g tc s xs)
     = float_div fp (Finite (sum_loop fp xs 0)) (int_to_float fp (int (length xs)))"
  using first_pass_sum[of fp xs 0 0
          "if max_threads g < INT_MAX then max_threads g + 1 else wrap32 (max_threads g + 1)"]
  by (auto simp: print_stats_with_def Let_def split: prod.splits split del: if_split)

lemma print_stats_empty:
  "print_stats_with fp g tc s [] =
     \<lparr> col_thread_count = tc, col_experiments = total_experiments g,
       col_failures = total_experiments g - s,
       col_min = (if max_threads g < INT_MAX then max_threads g + 1
                  else wrap32 (max_threads g + 1)),
       col_average = float_div fp (Finite 0) (int_to_float fp 0), col_max = 0,
       col_variance = float_div fp (Finite 0) (int_to_float fp 0),
       col_std_dev = float_sqrt fp (float_div fp (Finite 0) (int_to_float fp 0)) \<rparr>"
  by (simp add: print_stats_with_def Let_def)

lemma print_stats_exact:
  assumes "results \<noteq> []"
  shows "col_average (print_stats_with exact g tc s results) = Finite (spec_mean results)"
    and "col_variance (print_stats_with exact g tc s results) = Finite (spec_variance results)"
    and "col_std_dev (print_stats_with exact g tc s results) = Finite (spec_std_dev results)"
proof -
  have n: "rnd32 exact (real (length results)) \<noteq> 0" using assms by (simp add: exact_def)
  note fl = print_stats_floats[OF n, of g tc s]
  show "col_average (print_stats_with exact g tc s results) = Finite (spec_mean results)"
    by (simp add: fl float_mean_exact)
  show "col_variance (print_stats_with exact g tc s results) = Finite (spec_variance results)"
    by (simp add: fl float_variance_exact)
  show "col_std_dev (print_stats_with exact g tc s results) = Finite (spec_std_dev results)"
    using spec_variance_nonneg[of results]
    by (simp add: fl float_variance_exact spec_std_dev_def) (simp add: exact_def)
qed

subsection \<open>Three batches, operation by operation\<close>

text \<open>The floats nearest to 2.8, 0.16 and 0.4.\<close>

lemma nearest_floats:
  "to_float (28 / 10) = 11744051 / 4194304"
  "to_float (16 / 100) = 5368709 / 33554432"
  "to_float (4 / 10) = 13421773 / 33554432"
proof -
  have l1: "to_float (14 / 5) = 11744051 / 4194304"
    by (rule to_float_eval[where e="1" and u="1 / 4194304" and m="11744051"]) (simp_all add: rnd_even_def)
  have l2: "to_float (4 / 25) = 5368709 / 33554432"
    by (rule to_float_eval[where e="- 3" and u="1 / 67108864" and m="10737418"]) (simp_all add: rnd_even_def)
  have l3: "to_float (2 / 5) = 13421773 / 33554432"
    by (rule to_float_eval[where e="- 2" and u="1 / 33554432" and m="13421773"]) (simp_all add: rnd_even_def)
  show "to_float (28 / 10) = 11744051 / 4194304" using l1 by simp
  show "to_float (16 / 100) = 5368709 / 33554432" using l2 by simp
  show "to_float (4 / 10) = 13421773 / 33554432" using l3 by simp
qed

text \<open>The batch \<open>[3, 3, 3, 2, 3]\<close>, operation by operation.\<close>

lemma scenario_floats:
  "float_mean ieee [3, 3, 3, 2, 3] = 11744051 / 4194304"
  "float_variance ieee [3, 3, 3, 2, 3] = 5368709 / 33554432"
  "to_float (sqrt_round 53 (5368709 / 33554432)) = 13421773 / 33554432"
proof -
  have a1: "to_float (14 / 5) = 11744051 / 4194304"
    by (rule to_float_eval[where e="1" and u="1 / 4194304" and m="11744051"]) (simp_all add: rnd_even_def)
  have a2: "to_float (838861 / 4194304) = 838861 / 4194304"
    by (rule to_float_eval[where e="- 3" and u="1 / 67108864" and m="13421776"]) (simp_all add: rnd_even_def)
  have a3: "to_double (703687777321 / 17592186044416) = 703687777321 / 17592186044416"
    by (rule to_double_eval[where e="- 5" and u="1 / 144115188075855872" and m="5764610271813632"]) (simp_all add: rnd_even_def)
  have a4: "to_float (703687777321 / 17592186044416) = 10737423 / 268435456"
    by (rule to_float_eval[where e="- 5" and u="1 / 268435456" and m="10737423"]) (simp_all add: rnd_even_def)
  have a5: "to_double (1407375531049 / 17592186044416) = 1407375531049 / 17592186044416"
    by (rule to_double_eval[where e="- 4" and u="1 / 72057594037927936" and m="5764610175176704"]) (simp_all add: rnd_even_def)
  have a6: "to_float (1407375531049 / 17592186044416) = 10737423 / 134217728"
    by (rule to_float_eval[where e="- 4" and u="1 / 134217728" and m="10737423"]) (simp_all add: rnd_even_def)
  have a7: "to_double (2111063284777 / 17592186044416) = 2111063284777 / 17592186044416"
    by (rule to_double_eval[where e="- 4" and u="1 / 72057594037927936" and m="8646915214446592"]) (simp_all add: rnd_even_def)
  have a8: "to_float (2111063284777 / 17592186044416) = 16106135 / 134217728"
    by (rule to_float_eval[where e="- 4" and u="1 / 134217728" and m="16106135"]) (simp_all add: rnd_even_def)
  have a9: "to_float (- (3355443 / 4194304)) = - (3355443 / 4194304)"
    by (rule to_float_eval[where e="- 1" and u="1 / 16777216" and m="- 13421772"]) (simp_all add: rnd_even_def)
  have a10: "to_double (11258997726249 / 17592186044416) = 11258997726249 / 17592186044416"
    by (rule to_double_eval[where e="- 1" and u="1 / 9007199254740992" and m="5764606835839488"]) (simp_all add: rnd_even_def)
  have a11: "to_double (13370061052969 / 17592186044416) = 13370061052969 / 17592186044416"
    by (rule to_double_eval[where e="- 1" and u="1 / 9007199254740992" and m="6845471259120128"]) (simp_all add: rnd_even_def)
  have a12: "to_float (13370061052969 / 17592186044416) = 3187671 / 4194304"
    by (rule to_float_eval[where e="- 1" and u="1 / 16777216" and m="12750684"]) (simp_all add: rnd_even_def)
  have a13: "to_double (14073749003305 / 17592186044416) = 14073749003305 / 17592186044416"
    by (rule to_double_eval[where e="- 1" and u="1 / 9007199254740992" and m="7205759489692160"]) (simp_all add: rnd_even_def)
  have a14: "to_float (14073749003305 / 17592186044416) = 13421773 / 16777216"
    by (rule to_float_eval[where e="- 1" and u="1 / 16777216" and m="13421773"]) (simp_all add: rnd_even_def)
  have a15: "to_float (13421773 / 83886080) = 5368709 / 33554432"
    by (rule to_float_eval[where e="- 3" and u="1 / 67108864" and m="10737418"]) (simp_all add: rnd_even_def)
  have a16_isqrt: "isqrt 51922967424779489455260955574272 = 7205759323262156" by code_simp
  have a16: "sqrt_round 53 (5368709 / 33554432) = 1801439830815539 / 4503599627370496"
    by (rule sqrt_round_down[where e="- 3" and u="1 / 18014398509481984" and f="7205759323262156"]) (simp_all add: a16_isqrt)
  have a17: "to_float (1801439830815539 / 4503599627370496) = 13421773 / 33554432"
    by (rule to_float_eval[where e="- 2" and u="1 / 33554432" and m="13421773"]) (simp_all add: rnd_even_def)
  have s: "sum_loop ieee [3, 3, 3, 2, 3] 0 = 14"
    by (simp add: ieee_def to_float_numeral)
  show m: "float_mean ieee [3, 3, 3, 2, 3] = 11744051 / 4194304"
    by (simp only: float_mean_def s) (simp add: ieee_def to_float_numeral a1)
  have s1: "sum1_loop ieee (11744051 / 4194304) [3, 3, 3, 2, 3] 0 = 13421773 / 16777216"
    by (simp add: ieee_def to_float_numeral a1 a2 a3 a4 a5 a6 a7 a8 a9 a10 a11 a12 a13 a14 a15 a16 a17)
  show v: "float_variance ieee [3, 3, 3, 2, 3] = 5368709 / 33554432"
    by (simp only: float_variance_def m s1) (simp add: ieee_def to_float_numeral a15)
  show "to_float (sqrt_round 53 (5368709 / 33554432)) = 13421773 / 33554432"
    by (simp only: a16 a17)
qed

text \<open>
  Five outcomes 16777215: the sum is rounded at the third, fourth and fifth addition,
  the mean comes out as 16777214, and every deviation is 1.
\<close>

lemma equal_batch_floats:
  "float_mean ieee [16777215, 16777215, 16777215, 16777215, 16777215] = 16777214"
  "float_variance ieee [16777215, 16777215, 16777215, 16777215, 16777215] = 1"
  "to_float (sqrt_round 53 1) = 1"
proof -
  have b1: "to_float (33554430) = 33554430"
    by (rule to_float_eval[where e="24" and u="2" and m="16777215"]) (simp_all add: rnd_even_def)
  have b2: "to_float (50331645) = 50331644"
    by (rule to_float_eval[where e="25" and u="4" and m="12582911"]) (simp_all add: rnd_even_def)
  have b3: "to_float (67108859) = 67108860"
    by (rule to_float_eval[where e="25" and u="4" and m="16777215"]) (simp_all add: rnd_even_def)
  have b4: "to_float (83886075) = 83886072"
    by (rule to_float_eval[where e="26" and u="8" and m="10485759"]) (simp_all add: rnd_even_def)
  have b5: "to_float (83886072 / 5) = 16777214"
    by (rule to_float_eval[where e="23" and u="1" and m="16777214"]) (simp_all add: rnd_even_def)
  have b6_isqrt: "isqrt 20282409603651670423947251286016 = 4503599627370496" by code_simp
  have b6: "sqrt_round 53 (1) = 1"
    by (rule sqrt_round_down[where e="0" and u="1 / 4503599627370496" and f="4503599627370496"]) (simp_all add: b6_isqrt)
  have s: "sum_loop ieee [16777215, 16777215, 16777215, 16777215, 16777215] 0 = 83886072"
    by (simp add: ieee_def to_float_numeral b1 b2 b3 b4)
  show m: "float_mean ieee [16777215, 16777215, 16777215, 16777215, 16777215] = 16777214"
    by (simp only: float_mean_def s) (simp add: ieee_def to_float_numeral b5)
  have s1: "sum1_loop ieee 16777214 [16777215, 16777215, 16777215, 16777215, 16777215] 0 = 5"
    by (simp add: ieee_def to_float_numeral to_double_numeral)
  show v: "float_variance ieee [16777215, 16777215, 16777215, 16777215, 16777215] = 1"
    by (simp only: float_variance_def m s1) (simp add: ieee_def to_float_numeral)
  show "to_float (sqrt_round 53 1) = 1"
    using b6 by simp
qed

text \<open>
  The outcomes 16777216, 1 and 1 in two orders: added to 16777216 each 1 is rounded
  away, added to each other first they are not.
\<close>

lemma reordered_floats:
  "float_mean ieee [16777216, 1, 1] = 11184811 / 2"
  "float_mean ieee [1, 1, 16777216] = 5592406"
proof -
  have c1: "to_float (16777217) = 16777216"
    by (rule to_float_eval[where e="24" and u="2" and m="8388608"]) (simp_all add: rnd_even_def)
  have c2: "to_float (16777216 / 3) = 11184811 / 2"
    by (rule to_float_eval[where e="22" and u="1 / 2" and m="11184811"]) (simp_all add: rnd_even_def)
  have d1: "to_float (16777218) = 16777218"
    by (rule to_float_eval[where e="24" and u="2" and m="8388609"]) (simp_all add: rnd_even_def)
  have s: "sum_loop ieee [16777216, 1, 1] 0 = 16777216"
    by (simp add: ieee_def to_float_numeral c1)
  show "float_mean ieee [16777216, 1, 1] = 11184811 / 2"
    by (simp only: float_mean_def s) (simp add: ieee_def to_float_numeral c2)
  have s': "sum_loop ieee [1, 1, 16777216] 0 = 16777218"
    by (simp add: ieee_def to_float_numeral d1)
  show "float_mean ieee [1, 1, 16777216] = 5592406"
    by (simp only: float_mean_def s') (simp add: ieee_def to_float_numeral)
qed

text \<open>
  The outcomes 9, 1 and 4 in two orders: the mean is the same, and the sums of the
  squared deviations, rounded after every addition, differ in the last place.
\<close>

lemma small_reordered_floats:
  "float_variance ieee [9, 1, 4] = 11417827 / 1048576"
  "float_variance ieee [9, 4, 1] = 2854457 / 262144"
proof -
  have e1: "to_float (14 / 3) = 9786709 / 2097152"
    by (rule to_float_eval[where e="2" and u="1 / 2097152" and m="9786709"]) (simp_all add: rnd_even_def)
  have e2: "to_float (9087659 / 2097152) = 9087659 / 2097152"
    by (rule to_float_eval[where e="2" and u="1 / 2097152" and m="9087659"]) (simp_all add: rnd_even_def)
  have e3: "to_double (82585546100281 / 4398046511104) = 82585546100281 / 4398046511104"
    by (rule to_double_eval[where e="4" and u="1 / 281474976710656" and m="5285474950417984"]) (simp_all add: rnd_even_def)
  have e4: "to_float (82585546100281 / 4398046511104) = 2461241 / 131072"
    by (rule to_float_eval[where e="4" and u="1 / 524288" and m="9844964"]) (simp_all add: rnd_even_def)
  have e5: "to_float (- (7689557 / 2097152)) = - (7689557 / 2097152)"
    by (rule to_float_eval[where e="1" and u="1 / 4194304" and m="- 15379114"]) (simp_all add: rnd_even_def)
  have e6: "to_double (59129286856249 / 4398046511104) = 59129286856249 / 4398046511104"
    by (rule to_double_eval[where e="3" and u="1 / 562949953421312" and m="7568548717599872"]) (simp_all add: rnd_even_def)
  have e7: "to_double (141714830626361 / 4398046511104) = 141714830626361 / 4398046511104"
    by (rule to_double_eval[where e="5" and u="1 / 140737488355328" and m="4534874580043552"]) (simp_all add: rnd_even_def)
  have e8: "to_float (141714830626361 / 4398046511104) = 4223431 / 131072"
    by (rule to_float_eval[where e="5" and u="1 / 262144" and m="8446862"]) (simp_all add: rnd_even_def)
  have e9: "to_float (- (1398101 / 2097152)) = - (1398101 / 2097152)"
    by (rule to_float_eval[where e="- 1" and u="1 / 16777216" and m="- 11184808"]) (simp_all add: rnd_even_def)
  have e10: "to_double (1954686406201 / 4398046511104) = 1954686406201 / 4398046511104"
    by (rule to_double_eval[where e="- 2" and u="1 / 18014398509481984" and m="8006395519799296"]) (simp_all add: rnd_even_def)
  have e11: "to_double (143669514702393 / 4398046511104) = 143669514702393 / 4398046511104"
    by (rule to_double_eval[where e="5" and u="1 / 140737488355328" and m="4597424470476576"]) (simp_all add: rnd_even_def)
  have e12: "to_float (143669514702393 / 4398046511104) = 4281685 / 131072"
    by (rule to_float_eval[where e="5" and u="1 / 262144" and m="8563370"]) (simp_all add: rnd_even_def)
  have e13: "to_float (4281685 / 393216) = 11417827 / 1048576"
    by (rule to_float_eval[where e="3" and u="1 / 1048576" and m="11417827"]) (simp_all add: rnd_even_def)
  have f1: "to_float (14 / 3) = 9786709 / 2097152"
    by (rule to_float_eval[where e="2" and u="1 / 2097152" and m="9786709"]) (simp_all add: rnd_even_def)
  have f2: "to_float (9087659 / 2097152) = 9087659 / 2097152"
    by (rule to_float_eval[where e="2" and u="1 / 2097152" and m="9087659"]) (simp_all add: rnd_even_def)
  have f3: "to_double (82585546100281 / 4398046511104) = 82585546100281 / 4398046511104"
    by (rule to_double_eval[where e="4" and u="1 / 281474976710656" and m="5285474950417984"]) (simp_all add: rnd_even_def)
  have f4: "to_float (82585546100281 / 4398046511104) = 2461241 / 131072"
    by (rule to_float_eval[where e="4" and u="1 / 524288" and m="9844964"]) (simp_all add: rnd_even_def)
  have f5: "to_float (- (1398101 / 2097152)) = - (1398101 / 2097152)"
    by (rule to_float_eval[where e="- 1" and u="1 / 16777216" and m="- 11184808"]) (simp_all add: rnd_even_def)
  have f6: "to_double (1954686406201 / 4398046511104) = 1954686406201 / 4398046511104"
    by (rule to_double_eval[where e="- 2" and u="1 / 18014398509481984" and m="8006395519799296"]) (simp_all add: rnd_even_def)
  have f7: "to_double (84540230176313 / 4398046511104) = 84540230176313 / 4398046511104"
    by (rule to_double_eval[where e="4" and u="1 / 281474976710656" and m="5410574731284032"]) (simp_all add: rnd_even_def)
  have f8: "to_float (84540230176313 / 4398046511104) = 10077981 / 524288"
    by (rule to_float_eval[where e="4" and u="1 / 524288" and m="10077981"]) (simp_all add: rnd_even_def)
  have f9: "to_float (- (7689557 / 2097152)) = - (7689557 / 2097152)"
    by (rule to_float_eval[where e="1" and u="1 / 4194304" and m="- 15379114"]) (simp_all add: rnd_even_def)
  have f10: "to_double (59129286856249 / 4398046511104) = 59129286856249 / 4398046511104"
    by (rule to_double_eval[where e="3" and u="1 / 562949953421312" and m="7568548717599872"]) (simp_all add: rnd_even_def)
  have f11: "to_double (143669518896697 / 4398046511104) = 143669518896697 / 4398046511104"
    by (rule to_double_eval[where e="5" and u="1 / 140737488355328" and m="4597424604694304"]) (simp_all add: rnd_even_def)
  have f12: "to_float (143669518896697 / 4398046511104) = 8563371 / 262144"
    by (rule to_float_eval[where e="5" and u="1 / 262144" and m="8563371"]) (simp_all add: rnd_even_def)
  have f13: "to_float (2854457 / 262144) = 2854457 / 262144"
    by (rule to_float_eval[where e="3" and u="1 / 1048576" and m="11417828"]) (simp_all add: rnd_even_def)
  have s: "sum_loop ieee [9, 1, 4] 0 = 14" "sum_loop ieee [9, 4, 1] 0 = 14"
    by (simp_all add: to_float_numeral)
  have m: "float_mean ieee [9, 1, 4] = 9786709 / 2097152"
    "float_mean ieee [9, 4, 1] = 9786709 / 2097152"
    by (simp_all only: float_mean_def s) (simp_all add: to_float_numeral e1)
  have s1: "sum1_loop ieee (9786709 / 2097152) [9, 1, 4] 0 = 4281685 / 131072"
    by (simp add: to_float_numeral e1 e2 e3 e4 e5 e6 e7 e8 e9 e10 e11 e12 e13)
  have s1': "sum1_loop ieee (9786709 / 2097152) [9, 4, 1] 0 = 8563371 / 262144"
    by (simp add: to_float_numeral f1 f2 f3 f4 f5 f6 f7 f8 f9 f10 f11 f12 f13)
  show "float_variance ieee [9, 1, 4] = 11417827 / 1048576"
    by (simp only: float_variance_def m s1) (simp add: to_float_numeral e13)
  show "float_variance ieee [9, 4, 1] = 2854457 / 262144"
    by (simp only: float_variance_def m s1') (simp add: to_float_numeral f13)
qed

subsection \<open>The batch [3, 3, 3, 2, 3]\<close>

text \<open>
  C4. With \<open>total_experiments = 5\<close> (and \<open>2 \<le> max_threads < INT_MAX\<close>, so that the
  minimum scan starts from \<open>max_threads + 1\<close>, without overflow and above the
  outcomes), the row of the batch \<open>[3, 3, 3, 2, 3]\<close> at
  thread count 3 has the failure count 1, the minimum 2 and the maximum 3; its average,
  variance and standard deviation are the \<open>float\<close> values nearest to 2.8, 0.16 and
  0.4, and \<open>printf\<close> shows them as 2.80, 0.16 and 0.40.
\<close>

theorem scenario_summary:
  assumes "total_experiments g = 5" and "2 \<le> max_threads g" and "max_threads g < INT_MAX"
  shows "col_thread_count (summarize g 3 [3, 3, 3, 2, 3]) = 3
       \<and> col_experiments (summarize g 3 [3, 3, 3, 2, 3]) = 5
       \<and> col_failures (summarize g 3 [3, 3, 3, 2, 3]) = 1
       \<and> col_min (summarize g 3 [3, 3, 3, 2, 3]) = 2
       \<and> col_max (summarize g 3 [3, 3, 3, 2, 3]) = 3
       \<and> col_average (summarize g 3 [3, 3, 3, 2, 3]) = Finite (to_float (28 / 10))
       \<and> col_variance (summarize g 3 [3, 3, 3, 2, 3]) = Finite (to_float (16 / 100))
       \<and> col_std_dev (summarize g 3 [3, 3, 3, 2, 3]) = Finite (to_float (4 / 10))
       \<and> printf_2f (col_average (summarize g 3 [3, 3, 3, 2, 3])) = Some 280
       \<and> printf_2f (col_variance (summarize g 3 [3, 3, 3, 2, 3])) = Some 16
       \<and> printf_2f (col_std_dev (summarize g 3 [3, 3, 3, 2, 3])) = Some 40"
proof -
  let ?row = "summarize g 3 [3, 3, 3, 2, 3]"
  have n: "rnd32 ieee (real (length [3, 3, 3, 2, 3 :: int])) \<noteq> 0"
    using ieee_count[of 5] by simp
  note fl = print_stats_floats[OF n, of g 3 "tally 3 [3, 3, 3, 2, 3] 0"]
  have a: "col_average ?row = Finite (11744051 / 4194304)"
    by (simp only: summarize_def print_stats_def fl scenario_floats)
  have v: "col_variance ?row = Finite (5368709 / 33554432)"
    by (simp only: summarize_def print_stats_def fl scenario_floats)
  have d: "col_std_dev ?row = Finite (13421773 / 33554432)"
    by (simp only: summarize_def print_stats_def fl scenario_floats ieee_sel) simp
  have i: "col_thread_count ?row = 3" "col_experiments ?row = 5" "col_failures ?row = 1"
      "col_min ?row = 2" "col_max ?row = 3"
    using assms
    by (simp_all add: summarize_def print_stats_def col_thread_count_print_stats
          col_experiments_print_stats col_failures_print_stats col_min_print_stats
          col_max_print_stats)
  have p: "printf_2f (Finite (11744051 / 4194304)) = Some 280"
      "printf_2f (Finite (5368709 / 33554432)) = Some 16"
      "printf_2f (Finite (13421773 / 33554432)) = Some 40"
    by (simp_all add: rnd_even_def)
  show ?thesis
    by (simp only: i a v d p nearest_floats)
qed

text \<open>The theorem at the shipped configuration with five experiments.\<close>

theorem scenario_summary_witness:
  "total_experiments (initial_globals\<lparr>total_experiments := 5\<rparr>) = 5
   \<and> 2 \<le> max_threads (initial_globals\<lparr>total_experiments := 5\<rparr>)
   \<and> max_threads (initial_globals\<lparr>total_experiments := 5\<rparr>) < INT_MAX
   \<and> col_failures (summarize (initial_globals\<lparr>total_experiments := 5\<rparr>) 3 [3, 3, 3, 2, 3]) = 1
   \<and> col_min (summarize (initial_globals\<lparr>total_experiments := 5\<rparr>) 3 [3, 3, 3, 2, 3]) = 2
   \<and> col_max (summarize (initial_globals\<lparr>total_experiments := 5\<rparr>) 3 [3, 3, 3, 2, 3]) = 3
   \<and> printf_2f (col_average (summarize (initial_globals\<lparr>total_experiments := 5\<rparr>) 3 [3, 3, 3, 2, 3])) = Some 280
   \<and> printf_2f (col_variance (summarize (initial_globals\<lparr>total_experiments := 5\<rparr>) 3 [3, 3, 3, 2, 3])) = Some 16
   \<and> printf_2f (col_std_dev (summarize (initial_globals\<lparr>total_experiments := 5\<rparr>) 3 [3, 3, 3, 2, 3])) = Some 40"
proof -
  have h: "total_experiments (initial_globals\<lparr>total_experiments := 5\<rparr>) = 5"
    "2 \<le> max_threads (initial_globals\<lparr>total_experiments := 5\<rparr>)"
    "max_threads (initial_globals\<lparr>total_experiments := 5\<rparr>) < INT_MAX"
    by (simp_all add: initial_globals_def INT_MAX_def)
  from scenario_summary[OF h] show ?thesis using h by blast
qed

subsection \<open>Population variance\<close>

lemma equal_batch_zero:
  assumes "0 < n" "n \<le> 16777216" "int n * \<bar>v\<bar> \<le> 16777216"
  shows "float_mean ieee (replicate n v) = of_int v"
    and "float_variance ieee (replicate n v) = 0"
proof -
  have c: "to_float (real n) = real n" using assms by (intro ieee_count) auto
  have "sum_loop ieee (replicate n v) (of_int (int 0 * v)) = of_int (int (0 + n) * v)"
    using assms by (intro sum_loop_replicate) simp
  then have s: "sum_loop ieee (replicate n v) 0 = real n * of_int v" by simp
  have "\<bar>v\<bar> \<le> int n * \<bar>v\<bar>" using assms(1) mult_right_mono[of 1 "int n" "\<bar>v\<bar>"] by simp
  then have v: "to_float (of_int v) = of_int v" using assms(3) by (intro to_float_int) linarith
  show m: "float_mean ieee (replicate n v) = of_int v"
    using assms(1) by (simp add: float_mean_def s c v)
  have "sum1_loop ieee (of_int v) (replicate n v) 0 = 0"
    by (rule sum1_loop_equal) (simp add: v)
  then show "float_variance ieee (replicate n v) = 0"
    by (simp add: float_variance_def m)
qed

lemma single_batch_zero: "float_variance ieee [v] = 0"
proof -
  have m: "float_mean ieee [v] = to_float (of_int v)"
    by (simp add: float_mean_def)
  have "sum1_loop ieee (to_float (of_int v)) (replicate 1 v) 0 = 0"
    by (rule sum1_loop_equal) simp
  then show ?thesis by (simp add: float_variance_def m)
qed

lemma zero_variance_row:
  assumes "rnd32 ieee (real (length xs)) \<noteq> 0" "float_variance ieee xs = 0"
  shows "col_variance (print_stats g tc s xs) = Finite 0"
    and "col_std_dev (print_stats g tc s xs) = Finite 0"
  using print_stats_floats[OF assms(1), of g tc s] assms(2)
  by (simp_all add: print_stats_def)

text \<open>
  C5, as the code has it. print_stats divides the sum of the squared deviations from
  the mean by the batch size and takes the square root, rounding every operation: in
  exact arithmetic its columns are the arithmetic mean, the population variance
  (divisor the batch size) and the square root of that. In \<open>float\<close> arithmetic a batch
  of \<open>n\<close> equal outcomes \<open>v\<close> has variance and standard deviation 0 when
  \<open>n \<le> 2\<^sup>2\<^sup>4\<close> and \<open>n * \<bar>v\<bar> \<le> 2\<^sup>2\<^sup>4 = 16777216\<close>, the range in which the sum is
  exact; so has every batch of a single outcome.
\<close>

theorem variance_of_batch:
  "(results \<noteq> [] \<longrightarrow>
      col_average (print_stats_with exact g tc s results) = Finite (spec_mean results)
    \<and> col_variance (print_stats_with exact g tc s results) = Finite (spec_variance results)
    \<and> col_std_dev (print_stats_with exact g tc s results) = Finite (spec_std_dev results))
   \<and> (0 < n \<and> n \<le> 16777216 \<and> int n * \<bar>v\<bar> \<le> 16777216 \<longrightarrow>
        col_variance (print_stats g tc s (replicate n v)) = Finite 0
      \<and> col_std_dev (print_stats g tc s (replicate n v)) = Finite 0)
   \<and> col_variance (print_stats g tc s [v]) = Finite 0
   \<and> col_std_dev (print_stats g tc s [v]) = Finite 0"
proof (intro conjI impI)
  assume "results \<noteq> []"
  then show "col_average (print_stats_with exact g tc s results) = Finite (spec_mean results)"
     "col_variance (print_stats_with exact g tc s results) = Finite (spec_variance results)"
     "col_std_dev (print_stats_with exact g tc s results) = Finite (spec_std_dev results)"
    by (rule print_stats_exact)+
next
  assume a: "0 < n \<and> n \<le> 16777216 \<and> int n * \<bar>v\<bar> \<le> 16777216"
  then have c: "rnd32 ieee (real (length (replicate n v))) \<noteq> 0"
    using ieee_count[of n] by simp
  have z: "float_variance ieee (replicate n v) = 0" using a by (intro equal_batch_zero) auto
  show "col_variance (print_stats g tc s (replicate n v)) = Finite 0"
    using c z by (rule zero_variance_row)
  show "col_std_dev (print_stats g tc s (replicate n v)) = Finite 0"
    using c z by (rule zero_variance_row)
next
  have c: "rnd32 ieee (real (length [v])) \<noteq> 0" by simp
  show "col_variance (print_stats g tc s [v]) = Finite 0"
    using c single_batch_zero by (rule zero_variance_row)
  show "col_std_dev (print_stats g tc s [v]) = Finite 0"
    using c single_batch_zero by (rule zero_variance_row)
qed

text \<open>
  The batch \<open>[3, 3, 3, 2, 3]\<close> in exact arithmetic (mean 14/5, variance 4/25, not
  the 1/5 a divisor of 4 would give, standard deviation 2/5); a hundred outcomes 8; the
  single outcome 1.
\<close>

theorem variance_of_batch_witness:
  "[3, 3, 3, 2, 3] \<noteq> ([] :: int list)
   \<and> col_average (print_stats_with exact initial_globals 3 4 [3, 3, 3, 2, 3]) = Finite (14 / 5)
   \<and> col_variance (print_stats_with exact initial_globals 3 4 [3, 3, 3, 2, 3]) = Finite (4 / 25)
   \<and> col_std_dev (print_stats_with exact initial_globals 3 4 [3, 3, 3, 2, 3]) = Finite (2 / 5)
   \<and> col_variance (print_stats initial_globals 8 100 (replicate 100 8)) = Finite 0
   \<and> col_std_dev (print_stats initial_globals 8 100 (replicate 100 8)) = Finite 0
   \<and> col_variance (print_stats initial_globals 1 1 [1]) = Finite 0"
proof -
  have m: "spec_mean [3, 3, 3, 2, 3] = 14 / 5" by (simp add: spec_mean_def)
  have v: "spec_variance [3, 3, 3, 2, 3] = 4 / 25"
    by (simp add: spec_variance_def m power2_eq_square)
  have "sqrt (4 / 25) = 2 / 5" by (rule real_sqrt_unique) (simp_all add: power2_eq_square)
  then have d: "spec_std_dev [3, 3, 3, 2, 3] = 2 / 5" by (simp add: spec_std_dev_def v)
  show ?thesis
    using variance_of_batch[where results = "[3, 3, 3, 2, 3]" and g = initial_globals
            and tc = 3 and s = 4 and n = 1 and v = 1]
          variance_of_batch[where results = "[3, 3, 3, 2, 3]" and g = initial_globals
            and tc = 8 and s = 100 and n = 100 and v = 8]
          variance_of_batch[where results = "[3, 3, 3, 2, 3]" and g = initial_globals
            and tc = 1 and s = 1 and n = 1 and v = 1]
    by (simp add: m v d)
qed

text \<open>
  C5 as it is stated fails at five outcomes 16777215 recorded at the thread count
  16777215: no trial failed, the \<open>float\<close> sum is rounded, the mean comes out as
  16777214, and the row shows the variance 1 and the standard deviation 1 for a batch
  of equal outcomes.
\<close>

theorem equal_outcomes_counterexample:
  "col_failures (summarize (initial_globals\<lparr>max_threads := 16777215, total_experiments := 5\<rparr>)
      16777215 [16777215, 16777215, 16777215, 16777215, 16777215]) = 0
   \<and> col_variance (summarize (initial_globals\<lparr>max_threads := 16777215, total_experiments := 5\<rparr>)
      16777215 [16777215, 16777215, 16777215, 16777215, 16777215]) = Finite 1
   \<and> col_std_dev (summarize (initial_globals\<lparr>max_threads := 16777215, total_experiments := 5\<rparr>)
      16777215 [16777215, 16777215, 16777215, 16777215, 16777215]) = Finite 1"
proof -
  have n: "rnd32 ieee (real (length [16777215, 16777215, 16777215, 16777215, 16777215 :: int])) \<noteq> 0"
    using ieee_count[of 5] by simp
  note fl = print_stats_floats[OF n]
  have f: "col_failures (summarize (initial_globals\<lparr>max_threads := 16777215, total_experiments := 5\<rparr>)
      16777215 [16777215, 16777215, 16777215, 16777215, 16777215]) = 0"
    by (simp add: summarize_def print_stats_def col_failures_print_stats)
  have v: "col_variance (summarize (initial_globals\<lparr>max_threads := 16777215, total_experiments := 5\<rparr>)
      16777215 [16777215, 16777215, 16777215, 16777215, 16777215]) = Finite 1"
    by (simp only: summarize_def print_stats_def fl equal_batch_floats)
  have d: "col_std_dev (summarize (initial_globals\<lparr>max_threads := 16777215, total_experiments := 5\<rparr>)
      16777215 [16777215, 16777215, 16777215, 16777215, 16777215]) = Finite 1"
    by (simp only: summarize_def print_stats_def fl equal_batch_floats ieee_sel) simp
  show ?thesis using f v d by blast
qed

subsection \<open>The order of a batch\<close>

lemma mset_sum_list_map:
  fixes f :: "'a \<Rightarrow> 'b::comm_monoid_add"
  assumes "mset xs = mset ys"
  shows "sum_list (map f xs) = sum_list (map f ys)"
proof -
  have "sum_mset (mset (map f xs)) = sum_mset (mset (map f ys))" using assms by simp
  then show ?thesis by (simp only: sum_mset_sum_list)
qed

lemma mset_tally:
  assumes "mset xs = mset ys"
  shows "tally tc xs s = tally tc ys s"
proof -
  have "mset (filter (\<lambda>r. r = tc) xs) = mset (filter (\<lambda>r. r = tc) ys)"
    using assms by simp
  then have "length (filter (\<lambda>r. r = tc) xs) = length (filter (\<lambda>r. r = tc) ys)"
    by (rule mset_eq_length)
  then show ?thesis by (simp add: tally_count)
qed

lemma mset_spec:
  assumes "mset xs = mset ys"
  shows "spec_mean xs = spec_mean ys" and "spec_variance xs = spec_variance ys"
    and "spec_std_dev xs = spec_std_dev ys"
proof -
  have l: "length xs = length ys" using assms by (rule mset_eq_length)
  show m: "spec_mean xs = spec_mean ys"
    using mset_sum_list_map[OF assms, of real_of_int] l by (simp add: spec_mean_def)
  show v: "spec_variance xs = spec_variance ys"
    using mset_sum_list_map[OF assms, of "\<lambda>x. (real_of_int x - spec_mean ys)\<^sup>2"] l
    by (simp add: spec_variance_def m)
  show "spec_std_dev xs = spec_std_dev ys" by (simp add: spec_std_dev_def v)
qed

text \<open>
  C8, as the code has it. Two batches with the same outcomes in different orders have
  rows with the same thread count, trial count, failure count, minimum and maximum;
  the same average when the outcomes are not negative and sum to at most
  \<open>2\<^sup>2\<^sup>4 = 16777216\<close>, the range in which the \<open>float\<close> sum is exact; and, in exact
  arithmetic, the same row.
\<close>

theorem summary_permutation:
  assumes "mset batch' = mset batch"
  shows "col_thread_count (summarize g tc batch') = col_thread_count (summarize g tc batch)
       \<and> col_experiments (summarize g tc batch') = col_experiments (summarize g tc batch)
       \<and> col_failures (summarize g tc batch') = col_failures (summarize g tc batch)
       \<and> col_min (summarize g tc batch') = col_min (summarize g tc batch)
       \<and> col_max (summarize g tc batch') = col_max (summarize g tc batch)
       \<and> ((\<forall>r\<in>set batch. 0 \<le> r) \<and> sum_list batch \<le> 16777216
            \<longrightarrow> col_average (summarize g tc batch') = col_average (summarize g tc batch))
       \<and> print_stats_with exact g tc (tally tc batch' 0) batch'
            = print_stats_with exact g tc (tally tc batch 0) batch"
proof (intro conjI impI)
  have set: "set batch' = set batch" using assms by (rule mset_eq_setD)
  have len: "length batch' = length batch" using assms by (rule mset_eq_length)
  have tal: "tally tc batch' 0 = tally tc batch 0" using assms by (rule mset_tally)
  show "col_thread_count (summarize g tc batch') = col_thread_count (summarize g tc batch)"
    by (simp add: summarize_def print_stats_def col_thread_count_print_stats)
  show "col_experiments (summarize g tc batch') = col_experiments (summarize g tc batch)"
    by (simp add: summarize_def print_stats_def col_experiments_print_stats)
  show "col_failures (summarize g tc batch') = col_failures (summarize g tc batch)"
    by (simp add: summarize_def print_stats_def col_failures_print_stats tal)
  show "col_min (summarize g tc batch') = col_min (summarize g tc batch)"
    by (simp add: summarize_def print_stats_def col_min_print_stats set)
  show "col_max (summarize g tc batch') = col_max (summarize g tc batch)"
    by (simp add: summarize_def print_stats_def col_max_print_stats set)
  show "print_stats_with exact g tc (tally tc batch' 0) batch'
            = print_stats_with exact g tc (tally tc batch 0) batch"
  proof (cases "batch = []")
    case True
    then have "batch' = []" using len by simp
    then show ?thesis using True by simp
  next
    case False
    then have ne: "batch' \<noteq> []" using len by auto
    show ?thesis
      using print_stats_exact[OF False, of g tc "tally tc batch 0"]
            print_stats_exact[OF ne, of g tc "tally tc batch 0"] mset_spec[OF assms]
      by (intro stats_row.equality)
         (simp_all add: tal set col_thread_count_print_stats col_experiments_print_stats
            col_failures_print_stats col_min_print_stats col_max_print_stats)
  qed
  assume a: "(\<forall>r\<in>set batch. 0 \<le> r) \<and> sum_list batch \<le> 16777216"
  have sl: "sum_list batch' = sum_list batch"
    using mset_sum_list_map[OF assms, of "\<lambda>x. x"] by simp
  have "sum_loop ieee batch (of_int 0) = of_int (0 + sum_list batch)"
    using a by (intro sum_loop_ints) auto
  moreover have "sum_loop ieee batch' (of_int 0) = of_int (0 + sum_list batch')"
    using a set sl by (intro sum_loop_ints) auto
  ultimately have "sum_loop ieee batch' 0 = sum_loop ieee batch 0"
    by (simp add: sl)
  then show "col_average (summarize g tc batch') = col_average (summarize g tc batch)"
    by (simp add: summarize_def print_stats_def col_average_print_stats len)
qed

text \<open>The batch \<open>[3, 3, 3, 2, 3]\<close> with the failure first.\<close>

theorem summary_permutation_witness:
  "mset [2, 3, 3, 3, 3] = mset [3, 3, 3, 2, 3 :: int]
   \<and> col_failures (summarize initial_globals 3 [2, 3, 3, 3, 3])
       = col_failures (summarize initial_globals 3 [3, 3, 3, 2, 3])
   \<and> col_min (summarize initial_globals 3 [2, 3, 3, 3, 3])
       = col_min (summarize initial_globals 3 [3, 3, 3, 2, 3])
   \<and> col_max (summarize initial_globals 3 [2, 3, 3, 3, 3])
       = col_max (summarize initial_globals 3 [3, 3, 3, 2, 3])
   \<and> col_average (summarize initial_globals 3 [2, 3, 3, 3, 3])
       = col_average (summarize initial_globals 3 [3, 3, 3, 2, 3])
   \<and> print_stats_with exact initial_globals 3 (tally 3 [2, 3, 3, 3, 3] 0) [2, 3, 3, 3, 3]
       = print_stats_with exact initial_globals 3 (tally 3 [3, 3, 3, 2, 3] 0) [3, 3, 3, 2, 3]"
proof -
  have h: "mset [2, 3, 3, 3, 3] = mset [3, 3, 3, 2, 3 :: int]" by simp
  have b: "(\<forall>r\<in>set [3, 3, 3, 2, 3 :: int]. 0 \<le> r) \<and> sum_list [3, 3, 3, 2, 3 :: int] \<le> 16777216"
    by simp
  from summary_permutation[OF h, of initial_globals 3] b h show ?thesis by blast
qed

text \<open>
  C8 as it is stated fails at the outcomes 16777216, 1, 1: in that order each 1 is
  rounded away and the average is 5592405.5; with the two 1 first the sum is
  16777218 and the average 5592406, and the two rows are printed with different
  averages. It fails for the variance at the outcomes 9, 1, 4 of a trial with ten
  threads: recorded as 9, 4, 1 they give a variance one unit in the last place higher.
\<close>

theorem batch_order_counterexample:
  "mset [1, 1, 16777216] = mset [16777216, 1, 1 :: int]
   \<and> col_average (summarize (initial_globals\<lparr>max_threads := 16777216, total_experiments := 3\<rparr>)
        16777216 [16777216, 1, 1]) = Finite (11184811 / 2)
   \<and> col_average (summarize (initial_globals\<lparr>max_threads := 16777216, total_experiments := 3\<rparr>)
        16777216 [1, 1, 16777216]) = Finite 5592406
   \<and> printf_2f (Finite (11184811 / 2)) = Some 559240550
   \<and> printf_2f (Finite 5592406) = Some 559240600
   \<and> mset [9, 4, 1] = mset [9, 1, 4 :: int]
   \<and> col_variance (summarize (initial_globals\<lparr>total_experiments := 3\<rparr>) 10 [9, 1, 4])
        = Finite (11417827 / 1048576)
   \<and> col_variance (summarize (initial_globals\<lparr>total_experiments := 3\<rparr>) 10 [9, 4, 1])
        = Finite (2854457 / 262144)"
proof -
  have n: "rnd32 ieee (real (length [16777216, 1, 1 :: int])) \<noteq> 0"
     "rnd32 ieee (real (length [1, 1, 16777216 :: int])) \<noteq> 0"
     "rnd32 ieee (real (length [9, 1, 4 :: int])) \<noteq> 0"
     "rnd32 ieee (real (length [9, 4, 1 :: int])) \<noteq> 0"
    using ieee_count[of 3] by simp_all
  have a: "col_average (summarize (initial_globals\<lparr>max_threads := 16777216, total_experiments := 3\<rparr>)
        16777216 [16777216, 1, 1]) = Finite (11184811 / 2)"
    by (simp only: summarize_def print_stats_def print_stats_floats[OF n(1)] reordered_floats)
  have b: "col_average (summarize (initial_globals\<lparr>max_threads := 16777216, total_experiments := 3\<rparr>)
        16777216 [1, 1, 16777216]) = Finite 5592406"
    by (simp only: summarize_def print_stats_def print_stats_floats[OF n(2)] reordered_floats)
  have c: "col_variance (summarize (initial_globals\<lparr>total_experiments := 3\<rparr>) 10 [9, 1, 4])
        = Finite (11417827 / 1048576)"
    by (simp only: summarize_def print_stats_def print_stats_floats[OF n(3)] small_reordered_floats)
  have d: "col_variance (summarize (initial_globals\<lparr>total_experiments := 3\<rparr>) 10 [9, 4, 1])
        = Finite (2854457 / 262144)"
    by (simp only: summarize_def print_stats_def print_stats_floats[OF n(4)] small_reordered_floats)
  have p: "printf_2f (Finite (11184811 / 2)) = Some 559240550"
    "printf_2f (Finite 5592406) = Some 559240600"
    by (simp_all add: rnd_even_def)
  have m: "mset [1, 1, 16777216] = mset [16777216, 1, 1 :: int]"
    "mset [9, 4, 1] = mset [9, 1, 4 :: int]" by simp_all
  show ?thesis using a b c d p m by blast
qed

end
